theory Spec2Isabelle
  imports Main
begin

section \<open>The entity-component manager of \<^verbatim>\<open>src/entity_component_manager.hpp\<close>\<close>

text \<open>
  The class template \<^verbatim>\<open>EntityComponentManager<EntityId>\<close> is embedded as functions on a
  record of its private members. Entity ids (the template parameter, \<^verbatim>\<open>uint32_t\<close> in
  \<^verbatim>\<open>example/invaders/core.hpp\<close>) are natural numbers, with the wrap-around of the one
  arithmetic operation on them, in \<^verbatim>\<open>createEntity\<close>, written out; \<^verbatim>\<open>!eId\<close> is \<open>eId = 0\<close>.
  All component instances live in one value type \<open>'a\<close>; a component type \<^verbatim>\<open>T\<close> (the template
  argument) is a record of what the manager asks about it: its \<^verbatim>\<open>typeid(T).hash_code()\<close>
  and the compile-time tag predicates. \<^verbatim>\<open>castErasedTo\<close> is the checked \<^verbatim>\<open>dynamic_cast\<close> of the
  default build, which succeeds because every set is stored under the hash of its own type
  and hash codes are taken to identify types. The experimental members (\<^verbatim>\<open>pruneAll\<close>,
  \<^verbatim>\<open>eachByTag\<close>, \<^verbatim>\<open>pruneByTag\<close>) are left out.

  The headers \<^verbatim>\<open>tags.hpp\<close>, \<^verbatim>\<open>components.hpp\<close>, \<^verbatim>\<open>sparse_set.hpp\<close> and \<^verbatim>\<open>utilities.hpp\<close> that
  the manager includes are not part of the sources at hand. What the manager uses of them
  is modelled from the specification; each such definition says so.
\<close>

subsection \<open>Tag traits\<close>

type_synonym EntityId = nat

text \<open>
  A component type as the manager sees it. The predicates of the missing \<^verbatim>\<open>tags.hpp\<close> are
  taken as given: the fields are the values of \<^verbatim>\<open>Tags::isEvent<T>()\<close> ...
  \<^verbatim>\<open>Tags::isUnique<T>()\<close>.
\<close>

record ctype =
  hash_code :: nat
  isEvent :: bool
  isEffect :: bool
  isNotStacked :: bool
  isStacked :: bool
  isTransform :: bool
  isRequired :: bool
  isUnique :: bool

text \<open>
  Modelled from the spec: \<^verbatim>\<open>Tags::shouldStack<T>()\<close> of the missing \<^verbatim>\<open>tags.hpp\<close>. Section 4.1:
  a wrapper may hold several instances when the type is tagged Stack, and "the default when
  neither is declared is NoStack semantics".
\<close>

definition shouldStack :: "ctype \<Rightarrow> bool" where
  "shouldStack T = isStacked T"

datatype tag = Event | Effect | NoStack | Stack | Transform | Required | Unique

text \<open>
  \<^verbatim>\<open>typeid(Tags::X).hash_code()\<close> for the seven tag types. The values are implementation
  defined; the model fixes seven distinct non-zero codes.
\<close>

fun tagHashCode :: "tag \<Rightarrow> nat" where
  "tagHashCode Event = 1"
| "tagHashCode Effect = 2"
| "tagHashCode NoStack = 3"
| "tagHashCode Stack = 4"
| "tagHashCode Transform = 5"
| "tagHashCode Required = 6"
| "tagHashCode Unique = 7"

definition getComponentHash :: "ctype \<Rightarrow> nat" where
  "getComponentHash T = hash_code T"

definition getTagHashes :: "ctype \<Rightarrow> nat list" where
  "getTagHashes T =
     [if isEvent T then tagHashCode Event else 0,
      if isEffect T then tagHashCode Effect else 0,
      if isNotStacked T then tagHashCode NoStack else 0,
      if isStacked T then tagHashCode Stack else 0,
      if isTransform T then tagHashCode Transform else 0,
      if isRequired T then tagHashCode Required else 0,
      if isUnique T then tagHashCode Unique else 0]"

subsection \<open>Component wrapper\<close>

text \<open>
  Modelled from the spec: the class \<^verbatim>\<open>Components<T>\<close> of the missing \<^verbatim>\<open>components.hpp\<close>.
  Section 3: an ordered sequence of instances, the EMPTY flag, an optional transformation
  applied on read.
\<close>

record 'a components =
  elems :: "'a list"
  EMPTY :: bool
  transformer :: "('a \<Rightarrow> 'a) option"

text \<open>Modelled from the spec: \<^verbatim>\<open>Components<T>{ComponentFlags::EMPTY}\<close>, the sentinel.\<close>

definition Components_EMPTY :: "'a components" where
  "Components_EMPTY = \<lparr>elems = [], EMPTY = True, transformer = None\<rparr>"

text \<open>Modelled from the spec: \<^verbatim>\<open>Components<T>(args...)\<close>, one freshly constructed instance.\<close>

definition Components_new :: "'a \<Rightarrow> 'a components" where
  "Components_new v = \<lparr>elems = [v], EMPTY = False, transformer = None\<rparr>"

text \<open>Modelled from the spec: \<^verbatim>\<open>size()\<close>, the number of instances in the sequence.\<close>

definition Components_size :: "'a components \<Rightarrow> nat" where
  "Components_size w = length (elems w)"

text \<open>
  Modelled from the spec: \<^verbatim>\<open>emplace_back\<close>. Section 4.2: appends one instance; on a NoStack
  wrapper of size at least one the call does nothing and warns (the result's second
  component). Section 3: a wrapper with the EMPTY flag has size 0, so appending clears it.
\<close>

definition Components_emplace_back :: "ctype \<Rightarrow> 'a \<Rightarrow> 'a components \<Rightarrow> 'a components \<times> bool" where
  "Components_emplace_back T v w =
     (if \<not> shouldStack T \<and> Components_size w \<ge> 1 then (w, True)
      else (w\<lparr>elems := elems w @ [v], EMPTY := False\<rparr>, False))"

text \<open>
  Modelled from the spec: \<^verbatim>\<open>setTransformer\<close>, which sets the wrapper's optional
  transformation (section 3).
\<close>

definition Components_setTransformer :: "('a \<Rightarrow> 'a) \<Rightarrow> 'a components \<Rightarrow> 'a components" where
  "Components_setTransformer f w = w\<lparr>transformer := Some f\<rparr>"

text \<open>
  Modelled from the spec: the read paths. Section 4.2: "if a transform is set, read paths
  (peek, inspect, each) see transform(element); writes are untransformed"; \<^verbatim>\<open>peek\<close> on a
  wrapper without elements fails with ReadEmptyComponent (\<open>None\<close> here).
\<close>

definition Components_read :: "'a components \<Rightarrow> 'a \<Rightarrow> 'a" where
  "Components_read w x = (case transformer w of None \<Rightarrow> x | Some f \<Rightarrow> f x)"

text \<open>Modelled from the spec: \<^verbatim>\<open>inspect\<close>, as the list of values its visitor is given.\<close>

definition Components_inspect :: "'a components \<Rightarrow> 'a list" where
  "Components_inspect w = map (Components_read w) (elems w)"

text \<open>Modelled from the spec: \<^verbatim>\<open>peek(accessor)\<close>, the accessor on the first element as read.\<close>

definition Components_peek :: "('a \<Rightarrow> 'b) \<Rightarrow> 'a components \<Rightarrow> 'b option" where
  "Components_peek accessor w =
     (case elems w of [] \<Rightarrow> None | x # _ \<Rightarrow> Some (accessor (Components_read w x)))"

subsection \<open>Sparse set\<close>

text \<open>
  Modelled from the spec: the class \<^verbatim>\<open>SparseSet<EntityId, Components<T>>\<close> of the missing
  \<^verbatim>\<open>sparse_set.hpp\<close>. Section 3: a dense packed array of wrappers with its companion array
  of entity ids (here one list of pairs, in dense order), found through a sparse index (here
  a search for the first pair with the id), and a locked bit. \<open>setSize\<close> is the size the set
  was constructed with.
\<close>

record 'a sparse_set =
  dense :: "(EntityId \<times> 'a components) list"
  locked :: bool
  setSize :: nat

text \<open>
  Modelled from the spec: the constructor, the sizes and the locked bit. A new set is
  empty and unlocked; \<^verbatim>\<open>size\<close> counts the entries; \<^verbatim>\<open>getIds()\<close> is the dense id array;
  locking and unlocking toggle the bit (section 4.3).
\<close>

definition SparseSet_new :: "nat \<Rightarrow> 'a sparse_set" where
  "SparseSet_new maxSize = \<lparr>dense = [], locked = False, setSize = maxSize\<rparr>"

definition SparseSet_size :: "'a sparse_set \<Rightarrow> nat" where
  "SparseSet_size cs = length (dense cs)"

definition SparseSet_getIds :: "'a sparse_set \<Rightarrow> EntityId list" where
  "SparseSet_getIds cs = map fst (dense cs)"

definition SparseSet_isLocked :: "'a sparse_set \<Rightarrow> bool" where
  "SparseSet_isLocked cs = locked cs"

definition SparseSet_lock :: "'a sparse_set \<Rightarrow> 'a sparse_set" where
  "SparseSet_lock cs = cs\<lparr>locked := True\<rparr>"

definition SparseSet_unlock :: "'a sparse_set \<Rightarrow> 'a sparse_set" where
  "SparseSet_unlock cs = cs\<lparr>locked := False\<rparr>"

text \<open>
  Modelled from the spec: \<^verbatim>\<open>get(id)\<close>. Section 4.3: it returns a handle to the wrapper if
  present, else a null handle.
\<close>

definition SparseSet_get :: "EntityId \<Rightarrow> 'a sparse_set \<Rightarrow> 'a components option" where
  "SparseSet_get eId cs = map_of (dense cs) eId"

text \<open>
  Modelled from the spec: \<^verbatim>\<open>insert(id, W)\<close>. Section 4.3: it writes at the dense tail; an
  existing entry is overwritten only through \<^verbatim>\<open>overwrite\<close>; \<^verbatim>\<open>emplace\<close> and \<^verbatim>\<open>insert\<close> check
  the locked bit.
\<close>

definition SparseSet_insert :: "EntityId \<Rightarrow> 'a components \<Rightarrow> 'a sparse_set \<Rightarrow> 'a sparse_set" where
  "SparseSet_insert eId w cs =
     (if locked cs \<or> map_of (dense cs) eId \<noteq> None then cs
      else cs\<lparr>dense := dense cs @ [(eId, w)]\<rparr>)"

text \<open>
  Modelled from the spec: \<^verbatim>\<open>emplace(id, args...)\<close>. Section 4.3: it constructs the wrapper
  in place unless the set is locked, and returns a handle, or the null indicator if locked. The handle is the new
  wrapper together with the set that now holds it; \<open>None\<close> is the null indicator.
\<close>

definition SparseSet_emplace ::
  "EntityId \<Rightarrow> 'a \<Rightarrow> 'a sparse_set \<Rightarrow> ('a components \<times> 'a sparse_set) option" where
  "SparseSet_emplace eId v cs =
     (if locked cs \<or> map_of (dense cs) eId \<noteq> None then None
      else Some (Components_new v, cs\<lparr>dense := dense cs @ [(eId, Components_new v)]\<rparr>))"

text \<open>
  A write through a handle that \<^verbatim>\<open>get\<close> returned: the wrapper at the position of the id is
  replaced, nothing else moves.
\<close>

fun store :: "EntityId \<Rightarrow> 'w \<Rightarrow> (EntityId \<times> 'w) list \<Rightarrow> (EntityId \<times> 'w) list" where
  "store eId w [] = []"
| "store eId w ((k, x) # xs) = (if k = eId then (k, w) # xs else (k, x) # store eId w xs)"

definition SparseSet_store :: "EntityId \<Rightarrow> 'a components \<Rightarrow> 'a sparse_set \<Rightarrow> 'a sparse_set" where
  "SparseSet_store eId w cs = cs\<lparr>dense := store eId w (dense cs)\<rparr>"

text \<open>
  Modelled from the spec: \<^verbatim>\<open>overwrite(id, W)\<close>. Section 4.3: an existing \<open>(id, W)\<close> is
  overwritten through it.
\<close>

definition SparseSet_overwrite :: "EntityId \<Rightarrow> 'a components \<Rightarrow> 'a sparse_set \<Rightarrow> 'a sparse_set" where
  "SparseSet_overwrite eId w cs = SparseSet_store eId w cs"

text \<open>
  Modelled from the spec: \<^verbatim>\<open>erase(id)\<close>. Section 4.3: it removes \<open>(id, W)\<close>, swapping the
  last entry into its place to keep the array dense, and returns a boolean.
\<close>

fun swap_remove :: "EntityId \<Rightarrow> (EntityId \<times> 'w) list \<Rightarrow> (EntityId \<times> 'w) list" where
  "swap_remove eId [] = []"
| "swap_remove eId ((k, x) # xs) =
     (if k = eId then (if xs = [] then [] else last xs # butlast xs)
      else (k, x) # swap_remove eId xs)"

definition SparseSet_erase :: "EntityId \<Rightarrow> 'a sparse_set \<Rightarrow> bool \<times> 'a sparse_set" where
  "SparseSet_erase eId cs =
     (map_of (dense cs) eId \<noteq> None, cs\<lparr>dense := swap_remove eId (dense cs)\<rparr>)"

text \<open>
  Modelled from the spec: \<^verbatim>\<open>each\<close> and \<^verbatim>\<open>eachWithEmpty\<close>. Section 4.3: \<^verbatim>\<open>each(fn)\<close> iterates
  dense storage and skips wrappers where EMPTY is set; \<^verbatim>\<open>eachWithEmpty(fn)\<close> visits all. What the callback captures by reference is the
  accumulator. (Opportunistic pruning during \<^verbatim>\<open>each\<close>, which section 4.4 permits and does
  not require, is not modelled.)
\<close>

definition SparseSet_each ::
  "(EntityId \<Rightarrow> 'a components \<Rightarrow> 'acc \<Rightarrow> 'acc) \<Rightarrow> 'a sparse_set \<Rightarrow> 'acc \<Rightarrow> 'acc" where
  "SparseSet_each fn cs acc =
     fold (\<lambda>(eId, w) a. fn eId w a) (filter (\<lambda>(eId, w). \<not> EMPTY w) (dense cs)) acc"

definition SparseSet_eachWithEmpty ::
  "(EntityId \<Rightarrow> 'a components \<Rightarrow> 'acc \<Rightarrow> 'acc) \<Rightarrow> 'a sparse_set \<Rightarrow> 'acc \<Rightarrow> 'acc" where
  "SparseSet_eachWithEmpty fn cs acc = fold (\<lambda>(eId, w) a. fn eId w a) (dense cs) acc"

text \<open>
  Modelled from the spec: the conversion of a set to \<^verbatim>\<open>bool\<close> that \<^verbatim>\<open>getComponents\<close> negates.
  Section 4.4 has the Required check fail when the set is absent, that is, has just been
  created and holds nothing.
\<close>

definition SparseSet_bool :: "'a sparse_set \<Rightarrow> bool" where
  "SparseSet_bool cs = (dense cs \<noteq> [])"

subsection \<open>Errors, warnings and the manager's state\<close>

text \<open>
  The error kinds of section 7 that the manager's \<^verbatim>\<open>ASSERT\<close>s stand for; \<open>NullHandle\<close> is
  the dereference of a null handle, \<open>NotUnique\<close> the assertion that a type is Unique.
\<close>

datatype error =
  MissingRequiredComponent
| TypeMismatch
| UniqueOwnershipViolation
| LockedSetMutation
| NotUnique
| NullHandle

datatype warning =
  AssertionFailed error
| NoStackAddFailed EntityId
| OverwriteFailed EntityId
| RequiredOperation string

text \<open>
  The private members of the class. \<open>warnings\<close> is the logging sink that
  \<^verbatim>\<open>ECS_LOG_WARNING\<close> writes to, oldest first; \<open>allow_debug\<close> is the build switch
  \<^verbatim>\<open>ecs_allow_debug\<close>.
\<close>

record 'a ecm =
  componentMap :: "nat \<rightharpoonup> 'a sparse_set"
  tagMap :: "nat \<rightharpoonup> nat set"
  transformationMap :: "nat \<rightharpoonup> (EntityId \<Rightarrow> 'a \<Rightarrow> 'a)"
  nextEntityId :: EntityId
  standardSetSize :: nat
  minSetSize :: nat
  warnings :: "warning list"
  allow_debug :: bool

text \<open>
  The constructor, with \<^verbatim>\<open>reservedEntities\<close> (a constant of the missing \<^verbatim>\<open>utilities.hpp\<close>)
  and the build switch as parameters.
\<close>

definition EntityComponentManager :: "bool \<Rightarrow> nat \<Rightarrow> nat \<Rightarrow> nat \<Rightarrow> 'a ecm" where
  "EntityComponentManager dbg reservedEntities minSize stdSize =
     \<lparr>componentMap = Map.empty, tagMap = Map.empty, transformationMap = Map.empty,
      nextEntityId = reservedEntities, standardSetSize = stdSize, minSetSize = minSize,
      warnings = [], allow_debug = dbg\<rparr>"

text \<open>
  Modelled from the spec: the macro \<^verbatim>\<open>ECS_LOG_WARNING\<close> of the missing \<^verbatim>\<open>utilities.hpp\<close>.
  Section 6: warnings are surfaced through a logging channel; here they are appended to
  the log.
\<close>

definition ECS_LOG_WARNING :: "warning \<Rightarrow> 'a ecm \<Rightarrow> 'a ecm" where
  "ECS_LOG_WARNING w s = s\<lparr>warnings := warnings s @ [w]\<rparr>"

text \<open>
  Modelled from the spec: whether a failed \<^verbatim>\<open>ASSERT\<close> is fatal. Section 7 says it for each
  error kind: MissingRequiredComponent and TypeMismatch are fatal, UniqueOwnershipViolation
  is "fatal in debug, warning otherwise", LockedSetMutation is "surfaced as a warning".
\<close>

definition fatal :: "bool \<Rightarrow> error \<Rightarrow> bool" where
  "fatal dbg e =
     (case e of
        LockedSetMutation \<Rightarrow> False
      | UniqueOwnershipViolation \<Rightarrow> dbg
      | _ \<Rightarrow> True)"

text \<open>
  Modelled from the spec: the macro \<^verbatim>\<open>ASSERT(cond, msg)\<close> of the missing \<^verbatim>\<open>utilities.hpp\<close>,
  with the error kind that the message stands for. A fatal failure aborts the operation
  (\<open>Inl\<close>); otherwise the failure is logged as a warning and the operation goes on
  (section 7).
\<close>

definition ASSERT :: "bool \<Rightarrow> error \<Rightarrow> 'a ecm \<Rightarrow> error + 'a ecm" where
  "ASSERT cond e s =
     (if cond then Inr s
      else if fatal (allow_debug s) e then Inl e
      else Inr (ECS_LOG_WARNING (AssertionFailed e) s))"

subsection \<open>Component sets and the tag index\<close>

text \<open>
  \<^verbatim>\<open>createEntity\<close> returns \<^verbatim>\<open>m_nextEntityId++\<close>: the increment is that of a 32-bit unsigned
  integer, so the id after 4294967295 is 0.
\<close>

definition createEntity :: "'a ecm \<Rightarrow> EntityId \<times> 'a ecm" where
  "createEntity s = (nextEntityId s, s\<lparr>nextEntityId := (nextEntityId s + 1) mod 2 ^ 32\<rparr>)"

text \<open>
  \<^verbatim>\<open>createComponentSet\<close>: \<^verbatim>\<open>unordered_map::insert\<close> keeps an entry that is already there; the
  loop over the tag hashes skips the zeros, creates a missing tag entry and adds the
  component hash to it. Of the two constructor arguments \<^verbatim>\<open>(maxSize, m_standardSetSize)\<close>
  the new set records the first.
\<close>

definition createComponentSet :: "ctype \<Rightarrow> nat \<Rightarrow> 'a ecm \<Rightarrow> 'a ecm" where
  "createComponentSet T maxSize s =
     (let componentHash = getComponentHash T;
          cm = (case componentMap s componentHash of
                  None \<Rightarrow> (componentMap s)(componentHash \<mapsto> SparseSet_new maxSize)
                | Some _ \<Rightarrow> componentMap s);
          tm = fold (\<lambda>tagHash m.
                  if tagHash = 0 then m
                  else m(tagHash \<mapsto> insert componentHash (case m tagHash of None \<Rightarrow> {} | Some hs \<Rightarrow> hs)))
                (getTagHashes T) (tagMap s)
      in s\<lparr>componentMap := cm, tagMap := tm\<rparr>)"

text \<open>
  \<^verbatim>\<open>getComponentSet\<close> returns a reference to the stored set, creating the set first when the
  hash is not found. The reference is the set's value together with the state; a write
  through it is \<open>putSet\<close>.
\<close>

definition getComponentSet :: "ctype \<Rightarrow> nat \<Rightarrow> 'a ecm \<Rightarrow> 'a sparse_set \<times> 'a ecm" where
  "getComponentSet T maxSize s =
     (case componentMap s (getComponentHash T) of
        Some cSet \<Rightarrow> (cSet, s)
      | None \<Rightarrow>
          (let s' = createComponentSet T maxSize s
           in case componentMap s' (getComponentHash T) of
                Some cSet \<Rightarrow> (cSet, s')
              | None \<Rightarrow> (SparseSet_new maxSize, s')))"

definition putSet :: "ctype \<Rightarrow> 'a sparse_set \<Rightarrow> 'a ecm \<Rightarrow> 'a ecm" where
  "putSet T cSet s = s\<lparr>componentMap := (componentMap s)(getComponentHash T \<mapsto> cSet)\<rparr>"

subsection \<open>Transformations\<close>

text \<open>\<^verbatim>\<open>registerTransformation\<close>: \<^verbatim>\<open>unordered_map::emplace\<close> does nothing when the key exists.\<close>

definition registerTransformation :: "ctype \<Rightarrow> (EntityId \<Rightarrow> 'a \<Rightarrow> 'a) \<Rightarrow> 'a ecm \<Rightarrow> 'a ecm" where
  "registerTransformation T transformationFn s =
     (case transformationMap s (getComponentHash T) of
        None \<Rightarrow> s\<lparr>transformationMap := (transformationMap s)(getComponentHash T \<mapsto> transformationFn)\<rparr>
      | Some _ \<Rightarrow> s)"

definition getTransformation :: "ctype \<Rightarrow> EntityId \<Rightarrow> 'a ecm \<Rightarrow> (EntityId \<Rightarrow> 'a \<Rightarrow> 'a) option" where
  "getTransformation T eId s = transformationMap s (getComponentHash T)"

text \<open>\<^verbatim>\<open>setTransformer\<close> gives the wrapper the registered function with the entity id bound.\<close>

definition setTransformer :: "ctype \<Rightarrow> EntityId \<Rightarrow> 'a components \<Rightarrow> 'a ecm \<Rightarrow> 'a components" where
  "setTransformer T eId comps s =
     (case getTransformation T eId s of
        None \<Rightarrow> comps
      | Some transformationFn \<Rightarrow>
          Components_setTransformer (\<lambda>component. transformationFn eId component) comps)"

subsection \<open>add\<close>

definition addComponent :: "ctype \<Rightarrow> EntityId \<Rightarrow> 'a \<Rightarrow> 'a ecm \<Rightarrow> error + 'a ecm" where
  "addComponent T eId v s =
     (case getComponentSet T (standardSetSize s) s of (cSet, s1) \<Rightarrow>
      case ASSERT (\<not> SparseSet_isLocked cSet) LockedSetMutation s1 of
        Inl e \<Rightarrow> Inl e
      | Inr s2 \<Rightarrow>
          (case SparseSet_get eId cSet of
             None \<Rightarrow>
               (case SparseSet_emplace eId v cSet of
                  None \<Rightarrow> Inr s2
                | Some (newComps, cSet') \<Rightarrow>
                    Inr (putSet T (SparseSet_store eId (setTransformer T eId newComps s2) cSet') s2))
           | Some comps \<Rightarrow>
               if \<not> shouldStack T \<and> Components_size comps \<ge> 1
               then Inr (ECS_LOG_WARNING (NoStackAddFailed eId) s2)
               else (case Components_emplace_back T v comps of (comps', warned) \<Rightarrow>
                       Inr (putSet T (SparseSet_store eId (setTransformer T eId comps' s2) cSet)
                              (if warned then ECS_LOG_WARNING (NoStackAddFailed eId) s2 else s2)))))"

definition addUnique :: "ctype \<Rightarrow> EntityId \<Rightarrow> 'a \<Rightarrow> 'a ecm \<Rightarrow> error + 'a ecm" where
  "addUnique T eId v s =
     (case addComponent T eId v s of
        Inl e \<Rightarrow> Inl e
      | Inr s1 \<Rightarrow>
          (case getComponentSet T (minSetSize s1) s1 of (cSet, s2) \<Rightarrow>
             Inr (putSet T (SparseSet_lock cSet) s2)))"

definition add :: "ctype \<Rightarrow> EntityId \<Rightarrow> 'a \<Rightarrow> 'a ecm \<Rightarrow> error + 'a ecm" where
  "add T eId v s =
     (if eId = 0 then Inr s
      else if isUnique T then addUnique T eId v s
      else addComponent T eId v s)"

subsection \<open>get\<close>

text \<open>
  \<^verbatim>\<open>getOrCreateComponent\<close> works on the set it is given by reference and returns a reference
  to a wrapper: here the wrapper and the updated set. The final \<^verbatim>\<open>*comps\<close> on a null handle
  is the error \<open>NullHandle\<close>.
\<close>

definition getOrCreateComponent ::
  "ctype \<Rightarrow> 'a sparse_set \<Rightarrow> EntityId \<Rightarrow> error + ('a components \<times> 'a sparse_set)" where
  "getOrCreateComponent T cSet eId =
     (case SparseSet_get eId cSet of
        Some comps \<Rightarrow> Inr (comps, cSet)
      | None \<Rightarrow>
          (let dummy = Components_EMPTY;
               cSet' = (if SparseSet_isLocked cSet
                        then SparseSet_lock (SparseSet_insert eId dummy (SparseSet_unlock cSet))
                        else SparseSet_insert eId dummy cSet)
           in case SparseSet_get eId cSet' of
                Some comps \<Rightarrow> Inr (comps, cSet')
              | None \<Rightarrow> Inl NullHandle))"

definition getComponents :: "ctype \<Rightarrow> EntityId \<Rightarrow> 'a ecm \<Rightarrow> error + ('a components \<times> 'a ecm)" where
  "getComponents T eId s =
     (case getComponentSet T (standardSetSize s) s of (cSet, s1) \<Rightarrow>
      case (if \<not> SparseSet_bool cSet then ASSERT (\<not> isRequired T) MissingRequiredComponent s1
            else Inr s1) of
        Inl e \<Rightarrow> Inl e
      | Inr s2 \<Rightarrow>
          (case getOrCreateComponent T cSet eId of
             Inl e \<Rightarrow> Inl e
           | Inr (comps, cSet') \<Rightarrow> Inr (comps, putSet T cSet' s2)))"

definition get :: "ctype \<Rightarrow> EntityId \<Rightarrow> 'a ecm \<Rightarrow> error + ('a components \<times> 'a ecm)" where
  "get T eId s = getComponents T eId s"

text \<open>
  The singleton overload \<^verbatim>\<open>get<T>()\<close>. The source declares \<^verbatim>\<open>Components<T> *compsPtr;\<close> without
  an initialiser and tests it against \<^verbatim>\<open>nullptr\<close> after the scan; the indeterminate value it
  starts with is the parameter \<open>compsPtr0\<close> (\<open>None\<close> for a null pointer, \<open>Some g\<close> for a
  pointer at whatever \<open>g\<close> lies there). The callback's captures \<^verbatim>\<open>id\<close> (here \<open>id'\<close>) and \<^verbatim>\<open>compsPtr\<close> are the
  accumulator of the scan.
\<close>

definition get_singleton ::
  "'a components option \<Rightarrow> ctype \<Rightarrow> 'a ecm \<Rightarrow> error + ((EntityId \<times> 'a components) \<times> 'a ecm)" where
  "get_singleton compsPtr0 T s =
     (case getComponentSet T (standardSetSize s) s of (cSet, s1) \<Rightarrow>
      case ASSERT (isUnique T) NotUnique s1 of
        Inl e \<Rightarrow> Inl e
      | Inr s2 \<Rightarrow>
          (case SparseSet_each
                  (\<lambda>eId comps (id', compsPtr). if id' = 0 then (eId, Some comps) else (id', compsPtr))
                  cSet (0, compsPtr0) of
             (id', Some comps) \<Rightarrow> Inr ((id', comps), s2)
           | (id', None) \<Rightarrow>
               (case get T 0 s2 of
                  Inl e \<Rightarrow> Inl e
                | Inr (comps, s3) \<Rightarrow> Inr ((0, comps), s3))))"

text \<open>The variadic \<^verbatim>\<open>get<T>(id, ids...)\<close>: one set, one \<^verbatim>\<open>getOrCreateComponent\<close> per id.\<close>

fun getComponentsHelper ::
  "ctype \<Rightarrow> 'a sparse_set \<Rightarrow> EntityId list \<Rightarrow> error + ('a components list \<times> 'a sparse_set)" where
  "getComponentsHelper T cSet [] = Inr ([], cSet)"
| "getComponentsHelper T cSet (eId # rest) =
     (case getOrCreateComponent T cSet eId of
        Inl e \<Rightarrow> Inl e
      | Inr (firstComponent, cSet') \<Rightarrow>
          (case getComponentsHelper T cSet' rest of
             Inl e \<Rightarrow> Inl e
           | Inr (restComponents, cSet'') \<Rightarrow> Inr (firstComponent # restComponents, cSet'')))"

definition get_ids :: "ctype \<Rightarrow> EntityId list \<Rightarrow> 'a ecm \<Rightarrow> error + ('a components list \<times> 'a ecm)" where
  "get_ids T ids s =
     (case getComponentSet T (standardSetSize s) s of (cSet, s1) \<Rightarrow>
      case getComponentsHelper T cSet ids of
        Inl e \<Rightarrow> Inl e
      | Inr (comps, cSet') \<Rightarrow> Inr (comps, putSet T cSet' s1))"

fun gather :: "ctype list \<Rightarrow> EntityId \<Rightarrow> 'a ecm \<Rightarrow> error + ('a components list \<times> 'a ecm)" where
  "gather [] eId s = Inr ([], s)"
| "gather (T # Ts) eId s =
     (case getComponents T eId s of
        Inl e \<Rightarrow> Inl e
      | Inr (comps, s1) \<Rightarrow>
          (case gather Ts eId s1 of
             Inl e \<Rightarrow> Inl e
           | Inr (rest, s2) \<Rightarrow> Inr (comps # rest, s2)))"

definition getEntityIds :: "ctype \<Rightarrow> 'a ecm \<Rightarrow> EntityId list \<times> 'a ecm" where
  "getEntityIds T s =
     (case getComponentSet T (minSetSize s) s of (cSet, s1) \<Rightarrow> (SparseSet_getIds cSet, s1))"

definition getAll :: "ctype \<Rightarrow> 'a ecm \<Rightarrow> 'a sparse_set \<times> 'a ecm" where
  "getAll T s = getComponentSet T (minSetSize s) s"

fun gatherAll :: "ctype list \<Rightarrow> 'a ecm \<Rightarrow> 'a sparse_set list \<times> 'a ecm" where
  "gatherAll [] s = ([], s)"
| "gatherAll (T # Ts) s =
     (case getComponentSet T (minSetSize s) s of (cSet, s1) \<Rightarrow>
      case gatherAll Ts s1 of (rest, s2) \<Rightarrow> (cSet # rest, s2))"

subsection \<open>overwrite\<close>

text \<open>
  \<^verbatim>\<open>overwriteComponent\<close> takes the set by reference: the result is the set as the call leaves
  it, and the state (for the warning).
\<close>

definition overwriteComponent ::
  "ctype \<Rightarrow> EntityId \<Rightarrow> 'a sparse_set \<Rightarrow> 'a \<Rightarrow> 'a ecm \<Rightarrow> 'a sparse_set \<times> 'a ecm" where
  "overwriteComponent T eId cSet v s =
     (case SparseSet_get eId cSet of
        None \<Rightarrow> (cSet, ECS_LOG_WARNING (OverwriteFailed eId) s)
      | Some comps \<Rightarrow> (SparseSet_overwrite eId (Components_new v) cSet, s))"

text \<open>
  Modelled from the spec: \<^verbatim>\<open>getUnique<T>()\<close>, which \<^verbatim>\<open>overwriteUnique\<close> calls and the class
  does not declare. Section 9 names the singleton scan \<^verbatim>\<open>getUnique\<close>; it is \<^verbatim>\<open>get<T>()\<close>.
\<close>

definition getUnique ::
  "'a components option \<Rightarrow> ctype \<Rightarrow> 'a ecm \<Rightarrow> error + ((EntityId \<times> 'a components) \<times> 'a ecm)" where
  "getUnique compsPtr0 T s = get_singleton compsPtr0 T s"

text \<open>
  \<^verbatim>\<open>overwriteUnique\<close> takes its set parameter by value (\<^verbatim>\<open>ComponentSet<T> cSet\<close>, no \<^verbatim>\<open>&\<close>): the
  set that \<^verbatim>\<open>overwriteComponent\<close> changes is the function's own copy, which ends with the
  call. Only the state comes back.
\<close>

definition overwriteUnique ::
  "'a components option \<Rightarrow> ctype \<Rightarrow> EntityId \<Rightarrow> 'a sparse_set \<Rightarrow> 'a \<Rightarrow> 'a ecm \<Rightarrow> error + 'a ecm" where
  "overwriteUnique compsPtr0 T eId cSet v s =
     (case getUnique compsPtr0 T s of
        Inl e \<Rightarrow> Inl e
      | Inr ((uniqueId, _), s1) \<Rightarrow>
          (case ASSERT (eId = uniqueId) UniqueOwnershipViolation s1 of
             Inl e \<Rightarrow> Inl e
           | Inr s2 \<Rightarrow>
               (case ASSERT (isUnique T) NotUnique s2 of
                  Inl e \<Rightarrow> Inl e
                | Inr s3 \<Rightarrow>
                    (case overwriteComponent T eId cSet v s3 of (cSetCopy, s4) \<Rightarrow> Inr s4))))"

definition overwrite ::
  "'a components option \<Rightarrow> ctype \<Rightarrow> EntityId \<Rightarrow> 'a \<Rightarrow> 'a ecm \<Rightarrow> error + 'a ecm" where
  "overwrite compsPtr0 T eId v s =
     (if eId = 0 then Inr s
      else case getComponentSet T (standardSetSize s) s of (cSet, s1) \<Rightarrow>
        if isUnique T then overwriteUnique compsPtr0 T eId cSet v s1
        else (case overwriteComponent T eId cSet v s1 of (cSet', s2) \<Rightarrow> Inr (putSet T cSet' s2)))"

subsection \<open>clear and prune\<close>

definition debugCheckRequired :: "ctype \<Rightarrow> string \<Rightarrow> 'a ecm \<Rightarrow> 'a ecm" where
  "debugCheckRequired T operation s =
     (if \<not> isRequired T then s else ECS_LOG_WARNING (RequiredOperation operation) s)"

definition clearComponents :: "ctype list \<Rightarrow> 'a ecm \<Rightarrow> 'a ecm" where
  "clearComponents Ts s =
     s\<lparr>componentMap := fold (\<lambda>T m. m(getComponentHash T := None)) Ts (componentMap s)\<rparr>"

definition clear :: "ctype list \<Rightarrow> 'a ecm \<Rightarrow> 'a ecm" where
  "clear Ts s =
     clearComponents Ts
       (if allow_debug s then fold (\<lambda>T. debugCheckRequired T ''Clear'') Ts s else s)"

text \<open>
  \<^verbatim>\<open>clearComponentsByTag\<close>: for each non-zero tag hash of \<^verbatim>\<open>Tag\<close> that has an entry, every
  component hash of the entry is erased from the component map, then the entry itself.
\<close>

definition clearComponentsByTag :: "ctype \<Rightarrow> 'a ecm \<Rightarrow> 'a ecm" where
  "clearComponentsByTag Tag s =
     fold (\<lambda>tagHash s'.
        case (if tagHash = 0 then None else tagMap s' tagHash) of
          None \<Rightarrow> s'
        | Some componentHashes \<Rightarrow>
            s'\<lparr>componentMap := (\<lambda>h. if h \<in> componentHashes then None else componentMap s' h),
               tagMap := (tagMap s')(tagHash := None)\<rparr>)
       (getTagHashes Tag) s"

definition clearByTag :: "ctype \<Rightarrow> 'a ecm \<Rightarrow> 'a ecm" where
  "clearByTag Tag s = clearComponentsByTag Tag s"

definition clearEntityComponent :: "ctype list \<Rightarrow> EntityId \<Rightarrow> 'a ecm \<Rightarrow> 'a ecm" where
  "clearEntityComponent Ts eId s =
     fold (\<lambda>T s'. case getComponentSet T (minSetSize s') s' of (cSet, s1) \<Rightarrow>
                    putSet T (snd (SparseSet_erase eId cSet)) s1) Ts s"

definition clearByEntity :: "ctype list \<Rightarrow> EntityId \<Rightarrow> 'a ecm \<Rightarrow> 'a ecm" where
  "clearByEntity Ts eId s =
     clearEntityComponent Ts eId
       (if allow_debug s then fold (\<lambda>T. debugCheckRequired T ''Clear by entity'') Ts s else s)"

definition clearEntity :: "EntityId \<Rightarrow> 'a ecm \<Rightarrow> 'a ecm" where
  "clearEntity eId s =
     s\<lparr>componentMap := (\<lambda>h. map_option (\<lambda>cSet. snd (SparseSet_erase eId cSet)) (componentMap s h))\<rparr>"

text \<open>The private \<^verbatim>\<open>prune(compHash)\<close> and the public \<^verbatim>\<open>prune<Components...>()\<close> over it.\<close>

definition prune_hash :: "nat \<Rightarrow> 'a ecm \<Rightarrow> 'a ecm" where
  "prune_hash compHash s =
     (case componentMap s compHash of
        None \<Rightarrow> s
      | Some cSet \<Rightarrow>
          (let ids = SparseSet_eachWithEmpty
                       (\<lambda>eId components ids. if Components_size components = 0 then ids @ [eId] else ids)
                       cSet []
           in if length ids = SparseSet_size cSet
              then s\<lparr>componentMap := (componentMap s)(compHash := None)\<rparr>
              else (let cSet' = fold (\<lambda>id' c. snd (SparseSet_erase id' c)) ids cSet
                    in if SparseSet_size cSet' = 0
                       then s\<lparr>componentMap := (componentMap s)(compHash := None)\<rparr>
                       else s\<lparr>componentMap := (componentMap s)(compHash \<mapsto> cSet')\<rparr>)))"

definition prune :: "ctype list \<Rightarrow> 'a ecm \<Rightarrow> 'a ecm" where
  "prune Ts s = fold (\<lambda>T. prune_hash (getComponentHash T)) Ts s"

subsection \<open>What a caller can observe of a component type's set\<close>

definition wrappersOf :: "ctype \<Rightarrow> 'a ecm \<Rightarrow> (EntityId \<times> 'a components) list" where
  "wrappersOf T s =
     (case componentMap s (getComponentHash T) of None \<Rightarrow> [] | Some cSet \<Rightarrow> dense cSet)"

definition wrapperOf :: "ctype \<Rightarrow> EntityId \<Rightarrow> 'a ecm \<Rightarrow> 'a components option" where
  "wrapperOf T eId s = map_of (wrappersOf T s) eId"

definition lockedOf :: "ctype \<Rightarrow> 'a ecm \<Rightarrow> bool" where
  "lockedOf T s =
     (case componentMap s (getComponentHash T) of None \<Rightarrow> False | Some cSet \<Rightarrow> locked cSet)"

text \<open>
  The wrapper that a successful \<^verbatim>\<open>add<T>(eId, v)\<close> leaves for the entity: the stored one (or
  a new one) with \<open>v\<close> appended, and the registered transformation, if there is one.
\<close>

definition written :: "ctype \<Rightarrow> EntityId \<Rightarrow> 'a \<Rightarrow> 'a ecm \<Rightarrow> 'a components" where
  "written T eId v s =
     (let w0 = (case wrapperOf T eId s of None \<Rightarrow> Components_EMPTY | Some w \<Rightarrow> w)
      in setTransformer T eId (w0\<lparr>elems := elems w0 @ [v], EMPTY := False\<rparr>) s)"

text \<open>
  A sequence of calls: the next call runs on the state the previous one left, and a fatal
  error ends the sequence.
\<close>

definition andThen :: "error + 's \<Rightarrow> ('s \<Rightarrow> error + 't) \<Rightarrow> error + 't" where
  "andThen r f = (case r of Inl e \<Rightarrow> Inl e | Inr s \<Rightarrow> f s)"

subsection \<open>Sequences of operations and the tag index\<close>

text \<open>
  The public operations as values, so that "any sequence of operations" is a list. \<open>call\<close>
  performs one on a state and keeps the state it leaves (what the operation returns to its
  caller is dropped); \<open>calls\<close> performs a list in order and ends at the first fatal error.
\<close>

datatype 'a operation =
  CreateEntity
| Add ctype EntityId 'a
| Overwrite "'a components option" ctype EntityId 'a
| Get ctype EntityId
| GetSingleton "'a components option" ctype
| GetIds ctype "EntityId list"
| Gather "ctype list" EntityId
| GetEntityIds ctype
| GetAll ctype
| GatherAll "ctype list"
| Clear "ctype list"
| ClearByTag ctype
| ClearByEntity "ctype list" EntityId
| ClearEntity EntityId
| Prune "ctype list"
| RegisterTransformation ctype "EntityId \<Rightarrow> 'a \<Rightarrow> 'a"

fun call :: "'a operation \<Rightarrow> 'a ecm \<Rightarrow> error + 'a ecm" where
  "call CreateEntity s = Inr (snd (createEntity s))"
| "call (Add T eId v) s = add T eId v s"
| "call (Overwrite compsPtr0 T eId v) s = overwrite compsPtr0 T eId v s"
| "call (Get T eId) s = map_sum id snd (get T eId s)"
| "call (GetSingleton compsPtr0 T) s = map_sum id snd (get_singleton compsPtr0 T s)"
| "call (GetIds T ids) s = map_sum id snd (get_ids T ids s)"
| "call (Gather Ts eId) s = map_sum id snd (gather Ts eId s)"
| "call (GetEntityIds T) s = Inr (snd (getEntityIds T s))"
| "call (GetAll T) s = Inr (snd (getAll T s))"
| "call (GatherAll Ts) s = Inr (snd (gatherAll Ts s))"
| "call (Clear Ts) s = Inr (clear Ts s)"
| "call (ClearByTag Tag) s = Inr (clearByTag Tag s)"
| "call (ClearByEntity Ts eId) s = Inr (clearByEntity Ts eId s)"
| "call (ClearEntity eId) s = Inr (clearEntity eId s)"
| "call (Prune Ts) s = Inr (prune Ts s)"
| "call (RegisterTransformation T fn) s = Inr (registerTransformation T fn s)"

fun calls :: "'a operation list \<Rightarrow> 'a ecm \<Rightarrow> error + 'a ecm" where
  "calls [] s = Inr s"
| "calls (c # cs) s = andThen (call c s) (calls cs)"

text \<open>The operations that remove whole sets from the component-type index.\<close>

fun dropsSets :: "'a operation \<Rightarrow> bool" where
  "dropsSets (Clear Ts) = True"
| "dropsSets (ClearByTag Tag) = True"
| "dropsSets (Prune Ts) = True"
| "dropsSets _ = False"

text \<open>
  The entry of the tag index for \<open>tagHash\<close> lists a component hash that is not a key of the
  component-type index; and the invariant that no entry does.
\<close>

definition dangling :: "nat \<Rightarrow> nat \<Rightarrow> 'a ecm \<Rightarrow> bool" where
  "dangling tagHash componentHash s =
     (case tagMap s tagHash of
        None \<Rightarrow> False
      | Some componentHashes \<Rightarrow>
          componentHash \<in> componentHashes \<and> componentMap s componentHash = None)"

definition tagIndexSound :: "'a ecm \<Rightarrow> bool" where
  "tagIndexSound s = (\<forall>tagHash componentHash. \<not> dangling tagHash componentHash s)"

subsection \<open>Example component types and states\<close>

text \<open>
  The component types of the specification's scenarios, with natural numbers as component
  values, and a manager as the constructor leaves it. \<open>CollisionCheckEvent\<close> carries two
  tags, as in \<^verbatim>\<open>example/invaders/components.hpp\<close>; \<open>EventTag\<close> is the tag type \<^verbatim>\<open>Tags::Event\<close>
  itself, as \<^verbatim>\<open>clearByTag<Tags::Event>()\<close> passes it.
\<close>

definition untagged :: "nat \<Rightarrow> ctype" where
  "untagged h = \<lparr>hash_code = h, isEvent = False, isEffect = False, isNotStacked = False,
     isStacked = False, isTransform = False, isRequired = False, isUnique = False\<rparr>"

definition Score :: ctype where
  "Score = untagged 11"

definition Position :: ctype where
  "Position = (untagged 12)\<lparr>isNotStacked := True\<rparr>"

definition Hit :: ctype where
  "Hit = (untagged 13)\<lparr>isStacked := True\<rparr>"

definition Player :: ctype where
  "Player = (untagged 14)\<lparr>isUnique := True\<rparr>"

definition Health :: ctype where
  "Health = (untagged 15)\<lparr>isRequired := True\<rparr>"

definition Ev1 :: ctype where
  "Ev1 = (untagged 16)\<lparr>isEvent := True\<rparr>"

definition CollisionCheckEvent :: ctype where
  "CollisionCheckEvent = (untagged 17)\<lparr>isEvent := True, isNotStacked := True\<rparr>"

definition EventTag :: ctype where
  "EventTag = (untagged 1)\<lparr>isEvent := True\<rparr>"

definition plusOne :: "EntityId \<Rightarrow> nat \<Rightarrow> nat" where
  "plusOne eId v = v + 1"

definition emptyECM :: "nat ecm" where
  "emptyECM = EntityComponentManager False 1 100 10024"

definition stateOf :: "error + nat ecm \<Rightarrow> nat ecm" where
  "stateOf r = (case r of Inl e \<Rightarrow> emptyECM | Inr s \<Rightarrow> s)"

text \<open>
  Scenario B after its first add, scenario C after its add, a state with a sentinel and a
  real wrapper in one set (as in scenario D), an Event set with a wrapper and a sentinel,
  scenario F after registering.
\<close>

definition scenarioB :: "nat ecm" where
  "scenarioB = stateOf (add Position 1 10 emptyECM)"

definition scenarioC :: "nat ecm" where
  "scenarioC = stateOf (add Player 42 10 emptyECM)"

definition scenarioD :: "nat ecm" where
  "scenarioD = stateOf (andThen (map_sum id snd (get Score 1 emptyECM)) (add Score 2 5))"

definition scenarioE :: "nat ecm" where
  "scenarioE = stateOf (calls [Add Ev1 1 10, Get Ev1 2] emptyECM)"

definition scenarioF :: "nat ecm" where
  "scenarioF = registerTransformation Score plusOne emptyECM"

section \<open>Properties\<close>

subsection \<open>Component sets\<close>

lemma getComponentSet_Some:
  "componentMap s (getComponentHash T) = Some cSet \<Longrightarrow> getComponentSet T n s = (cSet, s)"
  by (simp add: getComponentSet_def)

lemma createComponentSet_componentMap:
  "componentMap s (getComponentHash T) = None \<Longrightarrow>
   componentMap (createComponentSet T n s) = (componentMap s)(getComponentHash T \<mapsto> SparseSet_new n)"
  by (simp add: createComponentSet_def Let_def)

lemma createComponentSet_other:
  "transformationMap (createComponentSet T n s) = transformationMap s"
  "warnings (createComponentSet T n s) = warnings s"
  "allow_debug (createComponentSet T n s) = allow_debug s"
  "standardSetSize (createComponentSet T n s) = standardSetSize s"
  "minSetSize (createComponentSet T n s) = minSetSize s"
  "nextEntityId (createComponentSet T n s) = nextEntityId s"
  by (simp_all add: createComponentSet_def Let_def)

lemma getComponentSet_None:
  "componentMap s (getComponentHash T) = None \<Longrightarrow>
   getComponentSet T n s = (SparseSet_new n, createComponentSet T n s)"
  by (simp add: getComponentSet_def Let_def createComponentSet_componentMap)

lemma putSet_same:
  "componentMap s (getComponentHash T) = Some cSet \<Longrightarrow> putSet T cSet s = s"
  by (simp add: putSet_def map_upd_triv)

lemma map_of_snoc_same: "map_of xs k = None \<Longrightarrow> map_of (xs @ [(k, w)]) k = Some w"
  by (simp add: map_add_def)

lemma map_of_snoc_other: "k' \<noteq> k \<Longrightarrow> map_of (xs @ [(k, w)]) k' = map_of xs k'"
  by (simp add: map_add_def split: option.splits)

subsection \<open>Reading a component\<close>

text \<open>
  C1, as the code has it. \<^verbatim>\<open>get<T>(e)\<close> returns a valid wrapper reference for every entity
  id \<open>e\<close> unless \<^verbatim>\<open>T\<close> is Required and its set holds no wrapper: the returned wrapper is the
  one stored for \<open>e\<close> afterwards; if none was stored before, it is an EMPTY sentinel (size
  0, EMPTY flag set) appended to the set; if one was stored, it is returned and nothing
  changes; the set is locked afterwards exactly if it was locked before, so on a locked
  set the sentinel is inserted between an unlock and a lock.
\<close>

theorem get_returns_valid_wrapper:
  assumes "\<not> (isRequired T \<and> wrappersOf T s = [])"
  shows "\<exists>w s'. get T eId s = Inr (w, s') \<and> wrapperOf T eId s' = Some w \<and>
           lockedOf T s' = lockedOf T s \<and>
           (case wrapperOf T eId s of
              None \<Rightarrow> w = Components_EMPTY \<and> Components_size w = 0 \<and> EMPTY w \<and>
                      wrappersOf T s' = wrappersOf T s @ [(eId, w)]
            | Some w0 \<Rightarrow> w = w0 \<and> s' = s)"
proof (cases "componentMap s (getComponentHash T)")
  case None
  then show ?thesis using assms
    apply (simp add: get_def getComponents_def getComponentSet_None)
    apply (auto simp: wrappersOf_def wrapperOf_def lockedOf_def SparseSet_new_def
        SparseSet_bool_def ASSERT_def getOrCreateComponent_def SparseSet_get_def
        SparseSet_isLocked_def SparseSet_insert_def Let_def putSet_def Components_EMPTY_def
        Components_size_def)
    done
next
  case (Some cSet)
  then show ?thesis using assms
    apply (simp add: get_def getComponents_def getComponentSet_Some)
    apply (auto simp: wrappersOf_def wrapperOf_def lockedOf_def SparseSet_bool_def ASSERT_def
        getOrCreateComponent_def SparseSet_get_def SparseSet_isLocked_def SparseSet_insert_def
        SparseSet_lock_def SparseSet_unlock_def Let_def putSet_def Components_EMPTY_def
        Components_size_def map_upd_triv map_add_def
        split: option.splits if_splits)
    done
qed

text \<open>
  C1 as stated fails for a Required type: on a manager without a Health set, the read of
  Health for entity 1 is the fatal MissingRequiredComponent, not a wrapper.
\<close>

theorem get_required_counterexample:
  "get Health 1 emptyECM = Inl MissingRequiredComponent"
  by (simp add: get_def getComponents_def getComponentSet_def createComponentSet_def Let_def
      Health_def untagged_def emptyECM_def EntityComponentManager_def getComponentHash_def
      SparseSet_new_def SparseSet_bool_def ASSERT_def fatal_def)

subsection \<open>Entity id 0\<close>

text \<open>
  C9. For every component type and every constructor argument, \<^verbatim>\<open>add<T>(0, args)\<close> and
  \<^verbatim>\<open>overwrite<T>(0, args)\<close> return at once: the whole state of the manager (component-type
  index with its sets, tag index, transformation registry) is what it was.
\<close>

theorem add_overwrite_zero_noop:
  "add T 0 v s = Inr s \<and> overwrite compsPtr0 T 0 v s = Inr s"
  by (simp add: add_def overwrite_def)

subsection \<open>Registering a transformation twice\<close>



subsection \<open>Writing a component\<close>

lemma store_snoc: "map_of xs k = None \<Longrightarrow> store k w (xs @ [(k, x)]) = xs @ [(k, w)]"
  by (induction xs) (auto split: if_splits)

lemma map_of_store_same: "map_of xs k = Some x \<Longrightarrow> map_of (store k w xs) k = Some w"
  by (induction xs) (auto split: if_splits)

lemma lock_locked: "locked cSet \<Longrightarrow> SparseSet_lock cSet = cSet"
  by (simp add: SparseSet_lock_def)

lemma get_present:
  assumes "wrapperOf T eId s = Some w"
  shows "get T eId s = Inr (w, s)"
proof -
  from assms obtain cSet where c: "componentMap s (getComponentHash T) = Some cSet"
    "map_of (dense cSet) eId = Some w"
    by (auto simp: wrapperOf_def wrappersOf_def split: option.splits)
  have ne: "dense cSet \<noteq> []" using c(2) by auto
  show ?thesis using c ne
    by (simp add: get_def getComponents_def getComponentSet_Some SparseSet_bool_def
        getOrCreateComponent_def SparseSet_get_def putSet_same)
qed

lemma addComponent_create:
  assumes "componentMap s (getComponentHash T) = None"
  shows "addComponent T eId v s = addComponent T eId v (createComponentSet T (standardSetSize s) s)"
proof -
  let ?s' = "createComponentSet T (standardSetSize s) s"
  have "componentMap ?s' (getComponentHash T) = Some (SparseSet_new (standardSetSize s))"
    using assms by (simp add: createComponentSet_componentMap)
  then have "getComponentSet T (standardSetSize ?s') ?s' = (SparseSet_new (standardSetSize s), ?s')"
    by (rule getComponentSet_Some)
  then show ?thesis using assms
    by (simp add: addComponent_def getComponentSet_None)
qed

lemma addComponent_writes_Some:
  assumes c: "componentMap s (getComponentHash T) = Some cSet" and l: "\<not> locked cSet"
    and nr: "shouldStack T \<or> (case wrapperOf T eId s of None \<Rightarrow> True | Some w0 \<Rightarrow> elems w0 = [])"
  shows "\<exists>s1. addComponent T eId v s = Inr s1 \<and> wrapperOf T eId s1 = Some (written T eId v s)"
proof (cases "map_of (dense cSet) eId")
  case None
  then show ?thesis using c l
    by (simp add: addComponent_def getComponentSet_Some ASSERT_def SparseSet_isLocked_def
        SparseSet_get_def SparseSet_emplace_def SparseSet_store_def store_snoc putSet_def
        wrapperOf_def wrappersOf_def written_def Components_EMPTY_def Components_new_def
        map_add_def)
next
  case (Some w0)
  then show ?thesis using c l nr
    by (auto simp add: addComponent_def getComponentSet_Some ASSERT_def SparseSet_isLocked_def
        SparseSet_get_def SparseSet_store_def putSet_def Components_emplace_back_def
        wrapperOf_def wrappersOf_def written_def Components_size_def map_of_store_same)
qed

lemma written_create:
  "componentMap s (getComponentHash T) = None \<Longrightarrow>
   written T eId v (createComponentSet T n s) = written T eId v s"
  by (simp add: written_def wrapperOf_def wrappersOf_def createComponentSet_componentMap
      SparseSet_new_def setTransformer_def getTransformation_def createComponentSet_other)

lemma addComponent_writes:
  assumes l: "\<not> lockedOf T s"
    and nr: "shouldStack T \<or> (case wrapperOf T eId s of None \<Rightarrow> True | Some w0 \<Rightarrow> elems w0 = [])"
  shows "\<exists>s1. addComponent T eId v s = Inr s1 \<and> wrapperOf T eId s1 = Some (written T eId v s)"
proof (cases "componentMap s (getComponentHash T)")
  case None
  let ?s' = "createComponentSet T (standardSetSize s) s"
  have 1: "componentMap ?s' (getComponentHash T) = Some (SparseSet_new (standardSetSize s))"
    using None by (simp add: createComponentSet_componentMap)
  have 2: "\<not> locked (SparseSet_new (standardSetSize s) :: 'a sparse_set)"
    by (simp add: SparseSet_new_def)
  have 3: "shouldStack T \<or> (case wrapperOf T eId ?s' of None \<Rightarrow> True | Some w0 \<Rightarrow> elems w0 = [])"
    using 1 by (simp add: wrapperOf_def wrappersOf_def SparseSet_new_def)
  from addComponent_writes_Some [OF 1 2 3, of v] show ?thesis
    using None by (auto simp: addComponent_create written_create)
next
  case (Some cSet)
  with l have "\<not> locked cSet" by (simp add: lockedOf_def)
  from addComponent_writes_Some [OF Some this nr, of v] show ?thesis by blast
qed

lemma add_writes:
  assumes "eId \<noteq> 0" and l: "\<not> lockedOf T s"
    and nr: "shouldStack T \<or> (case wrapperOf T eId s of None \<Rightarrow> True | Some w0 \<Rightarrow> elems w0 = [])"
  shows "\<exists>s1. add T eId v s = Inr s1 \<and> wrapperOf T eId s1 = Some (written T eId v s)"
proof -
  from addComponent_writes [OF l nr, of v] obtain s1 where
    s1: "addComponent T eId v s = Inr s1" "wrapperOf T eId s1 = Some (written T eId v s)"
    by blast
  show ?thesis
  proof (cases "isUnique T")
    case False
    then show ?thesis using s1 assms(1) by (simp add: add_def)
  next
    case True
    from s1(2) obtain cSet where c: "componentMap s1 (getComponentHash T) = Some cSet"
      "map_of (dense cSet) eId = Some (written T eId v s)"
      by (auto simp: wrapperOf_def wrappersOf_def split: option.splits)
    then show ?thesis using True s1 assms(1)
      by (simp add: add_def addUnique_def getComponentSet_Some putSet_def SparseSet_lock_def
          wrapperOf_def wrappersOf_def)
  qed
qed

text \<open>The example states, evaluated.\<close>

lemmas eval_defs =
  andThen_def stateOf_def add_def addUnique_def addComponent_def getComponentSet_def
  createComponentSet_def Let_def untagged_def emptyECM_def EntityComponentManager_def
  getComponentHash_def SparseSet_new_def ASSERT_def fatal_def SparseSet_isLocked_def
  SparseSet_get_def SparseSet_emplace_def SparseSet_store_def SparseSet_lock_def putSet_def
  setTransformer_def getTransformation_def Components_new_def Components_size_def
  shouldStack_def ECS_LOG_WARNING_def getTagHashes_def wrapperOf_def wrappersOf_def
  lockedOf_def

lemma scenarioB_add: "add Position 1 10 emptyECM = Inr scenarioB"
  by (simp add: scenarioB_def Position_def eval_defs)

lemma scenarioB_facts:
  "wrapperOf Position 1 scenarioB = Some (Components_new 10)" "\<not> lockedOf Position scenarioB"
  by (simp_all add: scenarioB_def Position_def eval_defs)

lemma scenarioC_add: "add Player 42 10 emptyECM = Inr scenarioC"
  by (simp add: scenarioC_def Player_def eval_defs)

lemma scenarioC_facts:
  "wrappersOf Player scenarioC = [(42, Components_new 10)]" "lockedOf Player scenarioC"
  by (simp_all add: scenarioC_def Player_def eval_defs)

text \<open>The read of C1 on the locked set of scenario C.\<close>

theorem get_returns_valid_wrapper_witness:
  "\<not> (isRequired Player \<and> wrappersOf Player scenarioC = []) \<and>
   lockedOf Player scenarioC \<and> wrapperOf Player 99 scenarioC = None \<and>
   (\<exists>w s'. get Player 99 scenarioC = Inr (w, s') \<and> wrapperOf Player 99 s' = Some w \<and>
      w = Components_EMPTY \<and> lockedOf Player s' \<and>
      wrappersOf Player s' = [(42, Components_new 10), (99, w)])"
proof -
  have r: "\<not> (isRequired Player \<and> wrappersOf Player scenarioC = [])"
    by (simp add: Player_def untagged_def)
  have n: "wrapperOf Player 99 scenarioC = None"
    by (simp add: wrapperOf_def scenarioC_facts)
  from get_returns_valid_wrapper [OF r, of 99] n scenarioC_facts
  show ?thesis by auto
qed

subsection \<open>A second add on a Unique set\<close>

text \<open>
  The refusal where it works. Let \<^verbatim>\<open>T\<close> be Unique and \<open>eId \<noteq> 0\<close>. The first
  \<^verbatim>\<open>add<T>(eId, v)\<close>, on a manager whose \<^verbatim>\<open>T\<close> set is absent or empty and unlocked, leaves the
  set locked with exactly one wrapper, for \<open>eId\<close>, holding \<open>v\<close>. In every state in which the
  set is locked and holds nothing but the wrapper for \<open>eId\<close>, \<^verbatim>\<open>add<T>(eId', v')\<close> with
  \<open>eId' \<noteq> eId\<close> is not a fatal error and changes nothing but the log: \<^verbatim>\<open>emplace\<close> returns the
  null indicator on the locked set, and the failed lock assertion is logged as a warning
  (for id 0 the call returns before any check).
\<close>

lemma unique_second_add_refused:
  assumes "isUnique T" and "eId \<noteq> 0"
  shows "(wrappersOf T s = [] \<and> \<not> lockedOf T s \<longrightarrow>
            (\<exists>s1 w. add T eId v s = Inr s1 \<and> wrappersOf T s1 = [(eId, w)] \<and> elems w = [v] \<and>
               \<not> EMPTY w \<and> lockedOf T s1)) \<and>
         (wrappersOf T s1 = [(eId, w)] \<and> lockedOf T s1 \<and> eId' \<noteq> eId \<longrightarrow>
            add T eId' v' s1 =
              Inr (s1\<lparr>warnings := warnings s1 @
                     (if eId' = 0 then [] else [AssertionFailed LockedSetMutation])\<rparr>))"
proof (intro conjI impI)
  assume a: "wrappersOf T s = [] \<and> \<not> lockedOf T s"
  show "\<exists>s1 w. add T eId v s = Inr s1 \<and> wrappersOf T s1 = [(eId, w)] \<and> elems w = [v] \<and>
               \<not> EMPTY w \<and> lockedOf T s1"
  proof (cases "componentMap s (getComponentHash T)")
    case None
    then show ?thesis using assms
      by (simp add: add_def addUnique_def addComponent_def getComponentSet_None ASSERT_def
          SparseSet_isLocked_def SparseSet_new_def SparseSet_get_def SparseSet_emplace_def
          putSet_def getComponentSet_Some createComponentSet_componentMap SparseSet_store_def
          setTransformer_def Components_new_def Components_setTransformer_def
          wrappersOf_def lockedOf_def SparseSet_lock_def split: option.splits)
  next
    case (Some cSet)
    then show ?thesis using assms a
      by (simp add: add_def addUnique_def addComponent_def ASSERT_def
          SparseSet_isLocked_def SparseSet_get_def SparseSet_emplace_def
          putSet_def getComponentSet_Some SparseSet_store_def
          setTransformer_def Components_new_def Components_setTransformer_def
          wrappersOf_def lockedOf_def SparseSet_lock_def split: option.splits)
  qed
next
  assume b: "wrappersOf T s1 = [(eId, w)] \<and> lockedOf T s1 \<and> eId' \<noteq> eId"
  then obtain cSet where c: "componentMap s1 (getComponentHash T) = Some cSet"
    "dense cSet = [(eId, w)]" "locked cSet"
    by (auto simp: wrappersOf_def lockedOf_def split: option.splits)
  show "add T eId' v' s1 =
              Inr (s1\<lparr>warnings := warnings s1 @
                     (if eId' = 0 then [] else [AssertionFailed LockedSetMutation])\<rparr>)"
  proof (cases "eId' = 0")
    case True
    then show ?thesis by (simp add: add_def)
  next
    case False
    have g: "componentMap (ECS_LOG_WARNING y s1) (getComponentHash T) = Some cSet" for y
      using c by (simp add: ECS_LOG_WARNING_def)
    show ?thesis using False assms c b
      by (simp add: add_def addUnique_def addComponent_def ASSERT_def getComponentSet_Some
          SparseSet_isLocked_def fatal_def SparseSet_get_def SparseSet_emplace_def g
          lock_locked putSet_same) (simp add: ECS_LOG_WARNING_def)
  qed
qed

lemma unique_second_add_refused_scenarioC:
  "isUnique Player \<and> (42::nat) \<noteq> 0 \<and> wrappersOf Player emptyECM = [] \<and>
   \<not> lockedOf Player emptyECM \<and> add Player 42 10 emptyECM = Inr scenarioC \<and>
   wrappersOf Player scenarioC = [(42, Components_new 10)] \<and> lockedOf Player scenarioC \<and>
   (43::nat) \<noteq> 42 \<and>
   add Player 43 20 scenarioC =
     Inr (scenarioC\<lparr>warnings := warnings scenarioC @ [AssertionFailed LockedSetMutation]\<rparr>)"
proof -
  have u: "isUnique Player" by (simp add: Player_def untagged_def)
  have e: "wrappersOf Player emptyECM = []" "\<not> lockedOf Player emptyECM"
    by (simp_all add: wrappersOf_def lockedOf_def emptyECM_def EntityComponentManager_def)
  from unique_second_add_refused
    [of Player 42 emptyECM 10 scenarioC "Components_new 10" 43 20] u scenarioC_facts
  have "add Player 43 20 scenarioC =
     Inr (scenarioC\<lparr>warnings := warnings scenarioC @ [AssertionFailed LockedSetMutation]\<rparr>)"
    by simp
  then show ?thesis using u e scenarioC_add scenarioC_facts by simp
qed

text \<open>
  C2 at an input where the code departs from it. After \<^verbatim>\<open>add<Player>(42, 10)\<close> has locked
  the Unique set, \<^verbatim>\<open>get<Player>(43)\<close> puts an EMPTY sentinel for entity 43 into it (unlock,
  insert, lock). A later \<^verbatim>\<open>add<Player>(43, 20)\<close> fails the lock assertion, which is logged,
  and goes on: \<^verbatim>\<open>cSet.get(43)\<close> finds the sentinel, so the branch that would call \<^verbatim>\<open>emplace\<close>
  and be refused is not taken, the NoStack check passes on size 0, and \<^verbatim>\<open>emplace_back\<close>
  appends to the sentinel. The add is not refused: the locked set now holds two non-EMPTY
  wrappers, for 42 and for 43.
\<close>

theorem unique_add_onto_sentinel_not_refused:
  "map_sum id (\<lambda>s. (wrappersOf Player s, lockedOf Player s, warnings s))
     (calls [Add Player 42 10, Get Player 43, Add Player 43 20] emptyECM) =
     Inr ([(42, Components_new 10), (43, Components_new 20)], True,
          [AssertionFailed LockedSetMutation])"
  by (simp add: Player_def eval_defs get_def getComponents_def SparseSet_bool_def
      getOrCreateComponent_def SparseSet_insert_def SparseSet_unlock_def Components_EMPTY_def
      Components_emplace_back_def)

subsection \<open>A second add on a NoStack wrapper\<close>

text \<open>
  C7, as the code has it. Let \<^verbatim>\<open>T\<close> be NoStack-tagged or untagged (not Stack) and not
  Unique, its set unlocked, and let entity \<open>eId \<noteq> 0\<close> hold one instance \<open>x\<close>. Then
  \<^verbatim>\<open>add<T>(eId, v)\<close> changes nothing but the log, to which it adds exactly one warning, and
  \<^verbatim>\<open>get<T>(eId)\<close> afterwards returns the same wrapper, of size 1, holding \<open>x\<close>.
\<close>

theorem nostack_second_add_noop:
  assumes "\<not> isStacked T" and "\<not> isUnique T" and "eId \<noteq> 0" and "\<not> lockedOf T s"
    and "wrapperOf T eId s = Some w" and "elems w = [x]"
  shows "add T eId v s = Inr (s\<lparr>warnings := warnings s @ [NoStackAddFailed eId]\<rparr>) \<and>
         get T eId (s\<lparr>warnings := warnings s @ [NoStackAddFailed eId]\<rparr>) =
           Inr (w, s\<lparr>warnings := warnings s @ [NoStackAddFailed eId]\<rparr>) \<and>
         Components_size w = 1 \<and> elems w = [x]"
proof -
  let ?s' = "s\<lparr>warnings := warnings s @ [NoStackAddFailed eId]\<rparr>"
  from assms(5) obtain cSet where c: "componentMap s (getComponentHash T) = Some cSet"
    "map_of (dense cSet) eId = Some w"
    by (auto simp: wrapperOf_def wrappersOf_def split: option.splits)
  have l: "\<not> locked cSet" using assms(4) c by (simp add: lockedOf_def)
  have 1: "add T eId v s = Inr ?s'"
    using assms c l
    by (simp add: add_def addComponent_def getComponentSet_Some ASSERT_def SparseSet_isLocked_def
        SparseSet_get_def shouldStack_def Components_size_def ECS_LOG_WARNING_def)
  have "wrapperOf T eId ?s' = Some w"
    using assms(5) by (simp add: wrapperOf_def wrappersOf_def)
  then have 2: "get T eId ?s' = Inr (w, ?s')" by (rule get_present)
  show ?thesis using 1 2 assms(6) by (simp add: Components_size_def)
qed

theorem nostack_second_add_noop_witness:
  "\<not> isStacked Position \<and> \<not> isUnique Position \<and> (1::nat) \<noteq> 0 \<and> \<not> lockedOf Position scenarioB \<and>
   wrapperOf Position 1 scenarioB = Some (Components_new 10) \<and>
   elems (Components_new (10::nat)) = [10] \<and>
   add Position 1 20 scenarioB = Inr (scenarioB\<lparr>warnings := warnings scenarioB @ [NoStackAddFailed 1]\<rparr>)"
proof -
  have t: "\<not> isStacked Position" "\<not> isUnique Position"
    by (simp_all add: Position_def untagged_def)
  have n: "elems (Components_new (10::nat)) = [10]" by (simp add: Components_new_def)
  from nostack_second_add_noop
    [of Position 1 scenarioB "Components_new 10" 10 20] t scenarioB_facts n
  show ?thesis by simp
qed

text \<open>
  C7 as stated fails for a Unique type, which is untagged for stacking: the owner's second
  add runs into the lock assertion first, so two warnings are logged, not one.
\<close>

theorem nostack_second_add_unique_counterexample:
  "map_sum id warnings (andThen (add Player 42 10 emptyECM) (add Player 42 20)) =
     Inr [AssertionFailed LockedSetMutation, NoStackAddFailed 42]"
  by (simp add: Player_def eval_defs)

subsection \<open>Transformations on read\<close>

text \<open>
  C5, as the code has it. Once a transformation \<open>fn\<close> is registered for \<^verbatim>\<open>T\<close>, a wrapper
  written by \<^verbatim>\<open>add<T>(eId, v)\<close> (on an unlocked set, the add not refused as NoStack) is read
  through \<open>fn\<close> with the entity id bound: \<^verbatim>\<open>inspect\<close> and \<^verbatim>\<open>peek\<close> see \<open>fn eId\<close> applied to each
  stored element, while the stored elements are the old ones followed by \<open>v\<close> itself,
  untransformed. Registering a transformation changes no wrapper of \<^verbatim>\<open>T\<close>'s set, so a
  wrapper written before the registration is read as before.
\<close>

theorem transform_read_after_add:
  assumes reg: "getTransformation T eId s = Some fn" and "eId \<noteq> 0" and "\<not> lockedOf T s"
    and nr: "shouldStack T \<or> (case wrapperOf T eId s of None \<Rightarrow> True | Some w0 \<Rightarrow> elems w0 = [])"
  shows "(\<exists>s1 w. add T eId v s = Inr s1 \<and> get T eId s1 = Inr (w, s1) \<and>
           elems w = (case wrapperOf T eId s of None \<Rightarrow> [] | Some w0 \<Rightarrow> elems w0) @ [v] \<and>
           Components_inspect w = map (fn eId) (elems w) \<and>
           Components_peek accessor w = Some (accessor (fn eId (hd (elems w))))) \<and>
         wrappersOf T (registerTransformation T g s0) = wrappersOf T s0"
proof
  from add_writes [OF assms(2,3) nr, of v] obtain s1 where
    s1: "add T eId v s = Inr s1" "wrapperOf T eId s1 = Some (written T eId v s)" by blast
  let ?w = "written T eId v s"
  have g: "get T eId s1 = Inr (?w, s1)" using s1(2) by (rule get_present)
  have e: "elems ?w = (case wrapperOf T eId s of None \<Rightarrow> [] | Some w0 \<Rightarrow> elems w0) @ [v]"
    using reg by (simp add: written_def setTransformer_def Components_setTransformer_def
        Components_EMPTY_def Let_def split: option.splits)
  have t: "transformer ?w = Some (fn eId)"
    using reg by (simp add: written_def setTransformer_def Components_setTransformer_def Let_def)
  have i: "Components_inspect ?w = map (fn eId) (elems ?w)"
    using t by (simp add: Components_inspect_def Components_read_def)
  have "elems ?w \<noteq> []" using e by simp
  then have p: "Components_peek accessor ?w = Some (accessor (fn eId (hd (elems ?w))))"
    using t by (cases "elems ?w") (simp_all add: Components_peek_def Components_read_def)
  show "\<exists>s1 w. add T eId v s = Inr s1 \<and> get T eId s1 = Inr (w, s1) \<and>
           elems w = (case wrapperOf T eId s of None \<Rightarrow> [] | Some w0 \<Rightarrow> elems w0) @ [v] \<and>
           Components_inspect w = map (fn eId) (elems w) \<and>
           Components_peek accessor w = Some (accessor (fn eId (hd (elems w))))"
    using s1(1) g e i p by blast
next
  show "wrappersOf T (registerTransformation T g s0) = wrappersOf T s0"
    by (simp add: wrappersOf_def registerTransformation_def split: option.splits)
qed

theorem transform_read_after_add_witness:
  "getTransformation Score 1 scenarioF = Some plusOne \<and> (1::nat) \<noteq> 0 \<and>
   \<not> lockedOf Score scenarioF \<and> wrapperOf Score 1 scenarioF = None \<and>
   (\<exists>s1 w. add Score 1 10 scenarioF = Inr s1 \<and> get Score 1 s1 = Inr (w, s1) \<and>
      elems w = [10] \<and> Components_inspect w = [11] \<and> Components_peek id w = Some 11)"
proof -
  have f: "getTransformation Score 1 scenarioF = Some plusOne" "\<not> lockedOf Score scenarioF"
    "wrapperOf Score 1 scenarioF = None"
    by (simp_all add: scenarioF_def registerTransformation_def Score_def eval_defs)
  from transform_read_after_add [of Score 1 scenarioF plusOne 10 id plusOne emptyECM] f
  obtain s1 w where a: "add Score 1 10 scenarioF = Inr s1" "get Score 1 s1 = Inr (w, s1)"
    "elems w = [10]" "Components_inspect w = map (plusOne 1) (elems w)"
    "Components_peek id w = Some (plusOne 1 (hd (elems w)))"
    by auto
  have "Components_inspect w = [11]" "Components_peek id w = Some 11"
    using a(3,4,5) by (simp_all add: plusOne_def)
  then show ?thesis using f a(1,2,3) by blast
qed

text \<open>
  C5 as stated fails for a wrapper written before the registration: after
  \<^verbatim>\<open>add<Score>(1, 10)\<close> and then the registration of \<open>plusOne\<close>, the read yields the stored 10.
\<close>

theorem transform_registered_after_add_counterexample:
  "map_sum id (Components_peek id \<circ> fst)
     (andThen (add Score 1 10 emptyECM) (get Score 1 \<circ> registerTransformation Score plusOne)) =
     Inr (Some 10)"
  by (simp add: Score_def eval_defs registerTransformation_def get_def getComponents_def
      SparseSet_bool_def getOrCreateComponent_def Components_peek_def Components_read_def)

text \<open>
  A read after \<^verbatim>\<open>overwrite\<close>: \<^verbatim>\<open>overwriteComponent\<close> stores a new wrapper and, unlike
  \<^verbatim>\<open>addComponent\<close>, does not call \<^verbatim>\<open>setTransformer\<close>, so in scenario F the read after
  \<^verbatim>\<open>overwrite<Score>(1, 20)\<close> yields the stored 20.
\<close>

lemma read_after_overwrite_untransformed:
  "map_sum id (Components_peek id \<circ> fst)
     (andThen (andThen (add Score 1 10 scenarioF) (overwrite compsPtr0 Score 1 20))
        (get Score 1)) = Inr (Some 20)"
  by (simp add: scenarioF_def Score_def eval_defs registerTransformation_def overwrite_def
      overwriteComponent_def SparseSet_overwrite_def get_def getComponents_def
      SparseSet_bool_def getOrCreateComponent_def Components_peek_def Components_read_def
      Components_setTransformer_def)

subsection \<open>The singleton read and the Unique overwrite\<close>

text \<open>
  Where the set holds a non-EMPTY wrapper, the scan of \<^verbatim>\<open>get<T>()\<close> sets \<^verbatim>\<open>compsPtr\<close> at the
  first one (its id not 0), and the value the pointer started with does not matter.
\<close>

lemma scan_keeps_first:
  "k \<noteq> 0 \<Longrightarrow>
   fold (\<lambda>(eId, w) a. (case a of (id', compsPtr) \<Rightarrow>
           if id' = 0 then (eId, Some w) else (id', compsPtr))) xs (k, p) = (k, p)"
  by (induction xs) (auto simp: case_prod_beta)

lemma get_singleton_owner:
  assumes "isUnique T"
    and "filter (\<lambda>(eId, w). \<not> EMPTY w) (wrappersOf T s) = (k, w) # rest" and "k \<noteq> 0"
  shows "get_singleton compsPtr0 T s = Inr ((k, w), s)"
proof -
  from assms(2) obtain cSet where c: "componentMap s (getComponentHash T) = Some cSet"
    "filter (\<lambda>(eId, w). \<not> EMPTY w) (dense cSet) = (k, w) # rest"
    by (auto simp: wrappersOf_def split: option.splits)
  have "SparseSet_each
          (\<lambda>eId comps (id', compsPtr). if id' = 0 then (eId, Some comps) else (id', compsPtr))
          cSet (0, compsPtr0) = (k, Some w)"
    using scan_keeps_first [OF assms(3), of rest "Some w"]
    by (simp add: SparseSet_each_def c(2))
  then show ?thesis using assms(1) c(1)
    by (simp add: get_singleton_def getComponentSet_Some ASSERT_def)
qed

text \<open>
  A non-owner's \<^verbatim>\<open>overwrite\<close> on a Unique set with one owner fails the owner assertion:
  fatally in a debug build, else with two warnings; the stored set is as it was.
\<close>

lemma overwrite_unique_non_owner:
  assumes "isUnique T" and "wrappersOf T s = [(eId, w)]" and "\<not> EMPTY w" and "eId \<noteq> 0"
    and "eId' \<noteq> eId" and "eId' \<noteq> 0"
  shows "overwrite compsPtr0 T eId' v s =
           (if allow_debug s then Inl UniqueOwnershipViolation
            else Inr (s\<lparr>warnings := warnings s @
                        [AssertionFailed UniqueOwnershipViolation, OverwriteFailed eId']\<rparr>))"
proof -
  from assms(2) obtain cSet where c: "componentMap s (getComponentHash T) = Some cSet"
    "dense cSet = [(eId, w)]"
    by (auto simp: wrappersOf_def split: option.splits)
  have f: "filter (\<lambda>(eId, w). \<not> EMPTY w) (wrappersOf T s) = (eId, w) # []"
    using assms(2,3) by simp
  have g: "get_singleton compsPtr0 T s = Inr ((eId, w), s)"
    using assms(1) f assms(4) by (rule get_singleton_owner)
  show ?thesis using assms c g
    by (simp add: overwrite_def getComponentSet_Some overwriteUnique_def getUnique_def
        ASSERT_def fatal_def overwriteComponent_def SparseSet_get_def ECS_LOG_WARNING_def)
qed

text \<open>
  C3 at an input where the code departs from it. On a manager without a Player set, with
  the uninitialised \<^verbatim>\<open>compsPtr\<close> holding a non-null value, the scan visits nothing, the test
  \<^verbatim>\<open>compsPtr != nullptr\<close> succeeds, and \<^verbatim>\<open>get<Player>()\<close> returns id 0 with whatever the pointer
  refers to; no sentinel is materialised in the set.
\<close>

theorem get_singleton_uninitialised_pointer:
  "map_sum id (\<lambda>r. (fst r, wrappersOf Player (snd r)))
     (get_singleton (Some (Components_new 7)) Player emptyECM) =
     Inr ((0, Components_new 7), [])"
  by (simp add: get_singleton_def SparseSet_each_def Player_def eval_defs)

text \<open>
  C6 at an input where the code departs from it. After \<^verbatim>\<open>add<Player>(42, 10)\<close>, the owner's
  \<^verbatim>\<open>overwrite<Player>(42, 20)\<close> passes the owner assertion and overwrites the by-value copy of
  the set: the stored wrapper of entity 42 still holds 10.
\<close>

theorem overwrite_unique_keeps_old_value:
  "map_sum id (wrapperOf Player 42)
     (andThen (add Player 42 10 emptyECM) (overwrite compsPtr0 Player 42 20)) =
     Inr (Some (Components_new 10))"
  by (simp add: Player_def eval_defs overwrite_def overwriteUnique_def getUnique_def
      get_singleton_def SparseSet_each_def overwriteComponent_def SparseSet_overwrite_def)

subsection \<open>Pruning\<close>

lemma set_last_butlast: "xs \<noteq> [] \<Longrightarrow> set (last xs # butlast xs) = set xs"
proof -
  assume "xs \<noteq> []"
  then have "butlast xs @ [last xs] = xs" by simp
  then have "set (butlast xs @ [last xs]) = set xs" by (rule arg_cong)
  moreover have "set (butlast xs @ [last xs]) = set (last xs # butlast xs)" by auto
  ultimately show ?thesis by simp
qed

lemma distinct_last_butlast:
  "distinct (map f xs) \<Longrightarrow> xs \<noteq> [] \<Longrightarrow> distinct (map f (last xs # butlast xs))"
proof -
  assume d: "distinct (map f xs)" and ne: "xs \<noteq> []"
  then have "butlast xs @ [last xs] = xs" by simp
  then have "map f (butlast xs @ [last xs]) = map f xs" by (rule arg_cong)
  then have "distinct (map f (butlast xs @ [last xs]))" using d by (simp only:)
  then show ?thesis by auto
qed

lemma swap_remove_hit:
  "swap_remove k ((k, x) # xs) = (if xs = [] then [] else last xs # butlast xs)"
  by simp

lemma swap_remove_miss: "j \<noteq> k \<Longrightarrow> swap_remove k ((j, x) # xs) = (j, x) # swap_remove k xs"
  by simp

lemma set_swap_remove_hit: "set (swap_remove k ((k, x) # xs)) = set xs"
proof (cases "xs = []")
  case True
  then show ?thesis by simp
next
  case False
  then have "swap_remove k ((k, x) # xs) = last xs # butlast xs" by simp
  then show ?thesis using set_last_butlast [OF False] by simp
qed

lemma set_swap_remove:
  "distinct (map fst xs) \<Longrightarrow> set (swap_remove k xs) = {p \<in> set xs. fst p \<noteq> k}"
proof (induction xs)
  case Nil
  then show ?case by simp
next
  case (Cons a xs)
  obtain j x where a: "a = (j, x)" by (cases a)
  show ?case
  proof (cases "j = k")
    case True
    have "k \<notin> fst ` set xs" using Cons.prems a True by simp
    then have n: "\<forall>p \<in> set xs. fst p \<noteq> k" by blast
    have "{p \<in> set ((k, x) # xs). fst p \<noteq> k} = set xs"
    proof (rule set_eqI)
      fix p show "p \<in> {p \<in> set ((k, x) # xs). fst p \<noteq> k} \<longleftrightarrow> p \<in> set xs"
        using n by (cases p) auto
    qed
    then show ?thesis unfolding a True by (simp only: set_swap_remove_hit)
  next
    case False
    have d: "distinct (map fst xs)" using Cons.prems by simp
    have ih: "set (swap_remove k xs) = {p \<in> set xs. fst p \<noteq> k}" by (rule Cons.IH [OF d])
    have "set (swap_remove k ((j, x) # xs)) = insert (j, x) (set (swap_remove k xs))"
      using False by simp
    moreover have "{p \<in> set ((j, x) # xs). fst p \<noteq> k} = insert (j, x) {p \<in> set xs. fst p \<noteq> k}"
    proof (rule set_eqI)
      fix p show "p \<in> {p \<in> set ((j, x) # xs). fst p \<noteq> k} \<longleftrightarrow>
                  p \<in> insert (j, x) {p \<in> set xs. fst p \<noteq> k}"
        using False by (cases p) auto
    qed
    ultimately show ?thesis unfolding a by (simp only: ih)
  qed
qed

lemma distinct_swap_remove:
  "distinct (map fst xs) \<Longrightarrow> distinct (map fst (swap_remove k xs))"
proof (induction xs)
  case Nil
  then show ?case by simp
next
  case (Cons a xs)
  obtain j x where a: "a = (j, x)" by (cases a)
  have d: "distinct (map fst xs)" using Cons.prems by simp
  show ?case
  proof (cases "j = k")
    case True
    show ?thesis
    proof (cases "xs = []")
      case True
      then show ?thesis using a by simp
    next
      case False
      from distinct_last_butlast [OF d False] show ?thesis
        unfolding a \<open>j = k\<close> swap_remove_hit using False by simp
    qed
  next
    case False
    have "set (swap_remove k xs) \<subseteq> set xs" using set_swap_remove [OF d, of k] by blast
    then have "fst ` set (swap_remove k xs) \<subseteq> fst ` set xs" by blast
    moreover have "j \<notin> fst ` set xs" using Cons.prems a by simp
    ultimately have "j \<notin> fst ` set (swap_remove k xs)" by blast
    then show ?thesis unfolding a using False Cons.IH [OF d] by simp
  qed
qed

lemma fold_swap_remove:
  "distinct (map fst xs) \<Longrightarrow>
   set (fold swap_remove ids xs) = {p \<in> set xs. fst p \<notin> set ids} \<and>
   distinct (map fst (fold swap_remove ids xs))"
proof (induction ids arbitrary: xs)
  case Nil
  then show ?case by simp
next
  case (Cons i ids)
  have d: "distinct (map fst (swap_remove i xs))" using Cons.prems by (rule distinct_swap_remove)
  from Cons.IH [OF d] show ?case using set_swap_remove [OF Cons.prems, of i] by auto
qed

lemma fold_erase:
  "fold (\<lambda>id' c. snd (SparseSet_erase id' c)) ids cSet = cSet\<lparr>dense := fold swap_remove ids (dense cSet)\<rparr>"
  by (induction ids arbitrary: cSet) (simp_all add: SparseSet_erase_def)

lemma collect_empty_ids:
  "fold (\<lambda>(eId, w) a. if Components_size w = 0 then a @ [eId] else a) xs acc =
   acc @ map fst (filter (\<lambda>p. Components_size (snd p) = 0) xs)"
  by (induction xs arbitrary: acc) (auto simp: case_prod_beta)

lemma length_filter_all:
  "length (filter P xs) = length xs \<longleftrightarrow> (\<forall>x \<in> set xs. P x)"
proof (induction xs)
  case Nil
  then show ?case by simp
next
  case (Cons a xs)
  show ?case
  proof (cases "P a")
    case True
    then show ?thesis using Cons by simp
  next
    case False
    then have "length (filter P (a # xs)) \<le> length xs" by simp
    then have "length (filter P (a # xs)) \<noteq> length (a # xs)" by simp
    then show ?thesis using False by simp
  qed
qed


lemma distinct_fst_unique:
  "distinct (map fst xs) \<Longrightarrow> q \<in> set xs \<Longrightarrow> p \<in> set xs \<Longrightarrow> fst q = fst p \<Longrightarrow> q = p"
  by (simp add: distinct_map inj_on_def)

lemma prune_hash_Some:
  assumes c: "componentMap s h = Some cSet" and d: "distinct (map fst (dense cSet))"
  shows "prune_hash h s =
           (if \<forall>p \<in> set (dense cSet). Components_size (snd p) = 0
            then s\<lparr>componentMap := (componentMap s)(h := None)\<rparr>
            else s\<lparr>componentMap := (componentMap s)(h \<mapsto>
                   cSet\<lparr>dense := fold swap_remove
                     (map fst (filter (\<lambda>p. Components_size (snd p) = 0) (dense cSet))) (dense cSet)\<rparr>)\<rparr>)"
    and "\<not> (\<forall>p \<in> set (dense cSet). Components_size (snd p) = 0) \<Longrightarrow>
         set (fold swap_remove
                (map fst (filter (\<lambda>p. Components_size (snd p) = 0) (dense cSet))) (dense cSet)) =
         {p \<in> set (dense cSet). Components_size (snd p) \<ge> 1}"
proof -
  let ?xs = "dense cSet"
  let ?ids = "map fst (filter (\<lambda>p. Components_size (snd p) = 0) ?xs)"
  have ids: "SparseSet_eachWithEmpty
               (\<lambda>eId components ids. if Components_size components = 0 then ids @ [eId] else ids)
               cSet [] = ?ids"
    by (simp add: SparseSet_eachWithEmpty_def collect_empty_ids)
  have all: "length ?ids = SparseSet_size cSet \<longleftrightarrow> (\<forall>p \<in> set ?xs. Components_size (snd p) = 0)"
    by (simp add: SparseSet_size_def length_filter_all)
  have mem: "fst p \<in> set ?ids \<longleftrightarrow> Components_size (snd p) = 0" if "p \<in> set ?xs" for p
  proof
    assume "fst p \<in> set ?ids"
    then obtain q where q: "q \<in> set ?xs" "Components_size (snd q) = 0" "fst q = fst p" by auto
    from d q(1) that q(3) have "q = p" by (rule distinct_fst_unique)
    then show "Components_size (snd p) = 0" using q by simp
  next
    assume "Components_size (snd p) = 0"
    then show "fst p \<in> set ?ids" using that by auto
  qed
  have st: "set (fold swap_remove ?ids ?xs) = {p \<in> set ?xs. Components_size (snd p) \<ge> 1}"
  proof (rule set_eqI)
    fix p
    have fs: "p \<in> set (fold swap_remove ?ids ?xs) \<longleftrightarrow> p \<in> set ?xs \<and> fst p \<notin> set ?ids"
      using fold_swap_remove [OF d, of ?ids] by blast
    show "p \<in> set (fold swap_remove ?ids ?xs) \<longleftrightarrow> p \<in> {p \<in> set ?xs. Components_size (snd p) \<ge> 1}"
    proof (cases "p \<in> set ?xs")
      case True
      from mem [OF True] have "fst p \<notin> set ?ids \<longleftrightarrow> Components_size (snd p) \<ge> 1" by linarith
      then show ?thesis using True fs by blast
    next
      case False
      then show ?thesis using fs by blast
    qed
  qed
  then show "\<not> (\<forall>p \<in> set (dense cSet). Components_size (snd p) = 0) \<Longrightarrow>
         set (fold swap_remove ?ids ?xs) = {p \<in> set (dense cSet). Components_size (snd p) \<ge> 1}"
    by simp
  have ne: "fold swap_remove ?ids ?xs \<noteq> []" if "\<not> (\<forall>p \<in> set ?xs. Components_size (snd p) = 0)"
  proof -
    from that obtain p where "p \<in> set ?xs" "Components_size (snd p) \<ge> 1" by auto
    then have "p \<in> set (fold swap_remove ?ids ?xs)" using st by simp
    then show ?thesis by auto
  qed
  show "prune_hash h s =
           (if \<forall>p \<in> set (dense cSet). Components_size (snd p) = 0
            then s\<lparr>componentMap := (componentMap s)(h := None)\<rparr>
            else s\<lparr>componentMap := (componentMap s)(h \<mapsto> cSet\<lparr>dense := fold swap_remove ?ids ?xs\<rparr>)\<rparr>)"
  proof (cases "\<forall>p \<in> set ?xs. Components_size (snd p) = 0")
    case True
    then have L: "length ?ids = SparseSet_size cSet" using all by blast
    have X: "prune_hash h s = s\<lparr>componentMap := (componentMap s)(h := None)\<rparr>"
      using L by (simp add: prune_hash_def c Let_def ids)
    show ?thesis by (subst if_P [OF True]) (rule X)
  next
    case False
    then have L: "length ?ids \<noteq> SparseSet_size cSet" using all by blast
    have Z: "SparseSet_size (fold (\<lambda>id' c. snd (SparseSet_erase id' c)) ?ids cSet) \<noteq> 0"
      using ne [OF False] by (simp add: fold_erase SparseSet_size_def)
    have X: "prune_hash h s =
            s\<lparr>componentMap := (componentMap s)(h \<mapsto> cSet\<lparr>dense := fold swap_remove ?ids ?xs\<rparr>)\<rparr>"
      using L Z by (simp add: prune_hash_def c Let_def ids fold_erase)
    show ?thesis by (subst if_not_P [OF False]) (rule X)
  qed
qed


lemma getEntityIds_ids: "fst (getEntityIds T s) = map fst (wrappersOf T s)"
  by (cases "componentMap s (getComponentHash T)")
     (simp_all add: getEntityIds_def getComponentSet_None getComponentSet_Some wrappersOf_def
       SparseSet_getIds_def SparseSet_new_def)

lemma prune_single: "prune [T] s = prune_hash (getComponentHash T) s"
  by (simp add: prune_def)

text \<open>
  C4. Let the ids of \<^verbatim>\<open>T\<close>'s set be pairwise distinct (an absent set counts as empty). Then
  \<^verbatim>\<open>prune<T>()\<close> leaves in the set exactly the entries whose wrapper has size at least 1,
  each with its wrapper as it was; wrappers of size 0, EMPTY sentinels and drained ones
  alike, are gone. If every wrapper has size 0 the set is dropped from the component-type
  index, otherwise it stays, locked as before. Nothing else in the manager changes. The
  ids that \<^verbatim>\<open>getEntityIds<T>()\<close> lists afterwards are those of the kept entries, so no id
  whose wrapper had size 0, in particular no id of an EMPTY sentinel, is among them.
\<close>

theorem prune_removes_exactly_empty:
  assumes d: "distinct (map fst (wrappersOf T s))"
  shows "set (wrappersOf T (prune [T] s)) =
           {p \<in> set (wrappersOf T s). Components_size (snd p) \<ge> 1} \<and>
         (if \<forall>p \<in> set (wrappersOf T s). Components_size (snd p) = 0
          then componentMap (prune [T] s) (getComponentHash T) = None
          else componentMap (prune [T] s) (getComponentHash T) \<noteq> None \<and>
               lockedOf T (prune [T] s) = lockedOf T s) \<and>
         prune [T] s = s\<lparr>componentMap := (componentMap s)
           (getComponentHash T := componentMap (prune [T] s) (getComponentHash T))\<rparr> \<and>
         set (fst (getEntityIds T (prune [T] s))) =
           fst ` {p \<in> set (wrappersOf T s). Components_size (snd p) \<ge> 1} \<and>
         (\<forall>p \<in> set (wrappersOf T s). Components_size (snd p) = 0 \<longrightarrow>
            fst p \<notin> set (fst (getEntityIds T (prune [T] s))))"
proof -
  let ?h = "getComponentHash T"
  let ?s' = "prune [T] s"
  let ?keep = "{p \<in> set (wrappersOf T s). Components_size (snd p) \<ge> 1}"
  have A: "set (wrappersOf T ?s') = ?keep \<and>
         (if \<forall>p \<in> set (wrappersOf T s). Components_size (snd p) = 0
          then componentMap ?s' ?h = None
          else componentMap ?s' ?h \<noteq> None \<and> lockedOf T ?s' = lockedOf T s) \<and>
         ?s' = s\<lparr>componentMap := (componentMap s)(?h := componentMap ?s' ?h)\<rparr>"
  proof (cases "componentMap s ?h")
    case None
    then have "?s' = s" by (simp add: prune_single prune_hash_def)
    then show ?thesis using None by (simp add: wrappersOf_def fun_upd_idem)
  next
    case (Some cSet)
    then have w: "wrappersOf T s = dense cSet" by (simp add: wrappersOf_def)
    have d': "distinct (map fst (dense cSet))" using d w by simp
    show ?thesis
    proof (cases "\<forall>p \<in> set (dense cSet). Components_size (snd p) = 0")
      case True
      then have "?s' = s\<lparr>componentMap := (componentMap s)(?h := None)\<rparr>"
        using prune_hash_Some(1) [OF Some d'] by (simp add: prune_single)
      then show ?thesis using True w by (auto simp: wrappersOf_def)
    next
      case False
      let ?cSet' = "cSet\<lparr>dense := fold swap_remove
              (map fst (filter (\<lambda>p. Components_size (snd p) = 0) (dense cSet))) (dense cSet)\<rparr>"
      have p: "?s' = s\<lparr>componentMap := (componentMap s)(?h \<mapsto> ?cSet')\<rparr>"
        using prune_hash_Some(1) [OF Some d'] False by (simp add: prune_single)
      have k: "set (dense ?cSet') = {p \<in> set (dense cSet). Components_size (snd p) \<ge> 1}"
        using prune_hash_Some(2) [OF Some d' False] by simp
      have c': "componentMap ?s' ?h = Some ?cSet'" by (subst p) simp
      have 1: "set (wrappersOf T ?s') = ?keep"
        using c' k w by (simp add: wrappersOf_def)
      have 2: "lockedOf T ?s' = lockedOf T s"
        using c' Some by (simp add: lockedOf_def)
      have 3: "?s' = s\<lparr>componentMap := (componentMap s)(?h := componentMap ?s' ?h)\<rparr>"
        by (subst c', subst p) simp
      show ?thesis using 1 2 3 c' False w by simp
    qed
  qed
  have B: "set (fst (getEntityIds T ?s')) = fst ` ?keep"
    using A by (simp add: getEntityIds_ids)
  have C: "fst p \<notin> set (fst (getEntityIds T ?s'))"
    if "p \<in> set (wrappersOf T s)" "Components_size (snd p) = 0" for p
  proof
    assume "fst p \<in> set (fst (getEntityIds T ?s'))"
    then obtain q where q: "q \<in> set (wrappersOf T s)" "Components_size (snd q) \<ge> 1" "fst q = fst p"
      using B by auto
    from d q(1) that(1) q(3) have "q = p" by (rule distinct_fst_unique)
    then show False using q(2) that(2) by simp
  qed
  show ?thesis using A B C by blast
qed

theorem prune_removes_exactly_empty_witness:
  "distinct (map fst (wrappersOf Score scenarioD)) \<and>
   wrappersOf Score scenarioD = [(1, Components_EMPTY), (2, Components_new 5)] \<and>
   set (wrappersOf Score (prune [Score] scenarioD)) = {(2, Components_new 5)} \<and>
   set (fst (getEntityIds Score (prune [Score] scenarioD))) = {2}"
proof -
  have w: "wrappersOf Score scenarioD = [(1, Components_EMPTY), (2, Components_new 5)]"
    by (simp add: scenarioD_def Score_def eval_defs get_def getComponents_def
        SparseSet_bool_def getOrCreateComponent_def SparseSet_insert_def Components_EMPTY_def)
  have d: "distinct (map fst (wrappersOf Score scenarioD))" by (simp add: w)
  have k: "{p \<in> set (wrappersOf Score scenarioD). Components_size (snd p) \<ge> 1} =
           {(2, Components_new 5)}"
    by (auto simp: w Components_size_def Components_EMPTY_def Components_new_def)
  from prune_removes_exactly_empty [OF d] show ?thesis using w d k by simp
qed

subsection \<open>The tag index\<close>

lemma tagIndexSound_iff:
  "tagIndexSound s \<longleftrightarrow> (\<forall>t hs. tagMap s t = Some hs \<longrightarrow> hs \<subseteq> dom (componentMap s))"
  by (auto simp: tagIndexSound_def dangling_def split: option.splits)

lemma tagIndexSound_ext:
  assumes "tagIndexSound s" and "tagMap s' = tagMap s"
    and "dom (componentMap s) \<subseteq> dom (componentMap s')"
  shows "tagIndexSound s'"
  using assms unfolding tagIndexSound_iff by (metis subset_trans)

lemma fold_tags_sound:
  assumes "\<forall>t hs. tm t = Some hs \<longrightarrow> hs \<subseteq> D" and "h \<in> D"
  shows "\<forall>t hs. fold (\<lambda>tagHash m.
                  if tagHash = 0 then m
                  else m(tagHash \<mapsto> insert h (case m tagHash of None \<Rightarrow> {} | Some hs \<Rightarrow> hs)))
                ths tm t = Some hs \<longrightarrow> hs \<subseteq> D"
    (is "\<forall>t hs. fold ?F ths tm t = Some hs \<longrightarrow> hs \<subseteq> D")
  using assms
proof (induction ths arbitrary: tm)
  case Nil
  then show ?case by simp
next
  case (Cons a ths)
  show ?case
  proof (cases "a = 0")
    case True
    then have "fold ?F (a # ths) tm = fold ?F ths tm" by simp
    then show ?thesis using Cons.IH [OF Cons.prems] by (simp only:)
  next
    case False
    let ?tm' = "tm(a \<mapsto> insert h (case tm a of None \<Rightarrow> {} | Some hs \<Rightarrow> hs))"
    have "\<forall>t hs. ?tm' t = Some hs \<longrightarrow> hs \<subseteq> D"
      using Cons.prems by (auto split: option.splits)
    from Cons.IH [OF this Cons.prems(2)]
    have X: "\<forall>t hs. fold ?F ths ?tm' t = Some hs \<longrightarrow> hs \<subseteq> D" .
    have "fold ?F (a # ths) tm = fold ?F ths ?tm'" using False by simp
    then show ?thesis using X by (simp only:)
  qed
qed

lemma createComponentSet_sound:
  assumes "tagIndexSound s"
  shows "tagIndexSound (createComponentSet T n s)"
proof -
  let ?h = "getComponentHash T"
  let ?cm = "(case componentMap s ?h of
                  None \<Rightarrow> (componentMap s)(?h \<mapsto> SparseSet_new n)
                | Some _ \<Rightarrow> componentMap s)"
  have 1: "?h \<in> dom ?cm" by (auto split: option.splits)
  have 2: "dom (componentMap s) \<subseteq> dom ?cm" by (auto split: option.splits)
  have 3: "\<forall>t hs. tagMap s t = Some hs \<longrightarrow> hs \<subseteq> dom ?cm"
    using assms 2 unfolding tagIndexSound_iff by (metis subset_trans)
  from fold_tags_sound [OF 3 1, of "getTagHashes T"] show ?thesis
    unfolding tagIndexSound_iff by (simp add: createComponentSet_def Let_def)
qed

lemma getComponentSet_sound:
  assumes "tagIndexSound s"
  shows "tagIndexSound (snd (getComponentSet T n s))"
  using assms
  by (cases "componentMap s (getComponentHash T)")
     (simp_all add: getComponentSet_None getComponentSet_Some createComponentSet_sound)

lemma putSet_sound: "tagIndexSound s \<Longrightarrow> tagIndexSound (putSet T cSet s)"
  by (rule tagIndexSound_ext [of s]) (auto simp: putSet_def)

lemma log_sound: "tagIndexSound s \<Longrightarrow> tagIndexSound (ECS_LOG_WARNING w s)"
  by (rule tagIndexSound_ext [of s]) (auto simp: ECS_LOG_WARNING_def)

lemma ASSERT_sound: "tagIndexSound s \<Longrightarrow> ASSERT c e s = Inr s' \<Longrightarrow> tagIndexSound s'"
  by (auto simp: ASSERT_def log_sound split: if_splits)

lemma addComponent_sound:
  assumes "tagIndexSound s" and "addComponent T eId v s = Inr s'"
  shows "tagIndexSound s'"
proof -
  obtain cSet s1 where g: "getComponentSet T (standardSetSize s) s = (cSet, s1)"
    by (cases "getComponentSet T (standardSetSize s) s")
  have 1: "tagIndexSound s1" using getComponentSet_sound [OF assms(1), of T "standardSetSize s"] g
    by simp
  from assms(2) g obtain s2 where a: "ASSERT (\<not> SparseSet_isLocked cSet) LockedSetMutation s1 = Inr s2"
    by (auto simp: addComponent_def split: sum.splits)
  have 2: "tagIndexSound s2" using 1 a by (rule ASSERT_sound)
  show ?thesis using assms(2) g a 2
    by (auto simp: addComponent_def putSet_sound log_sound
        split: option.splits if_splits prod.splits)
qed

lemma add_sound:
  assumes "tagIndexSound s" and "add T eId v s = Inr s'"
  shows "tagIndexSound s'"
proof (cases "eId = 0 \<or> \<not> isUnique T")
  case True
  then show ?thesis using assms by (auto simp: add_def addComponent_sound split: if_splits)
next
  case False
  with assms(2) obtain s1 where a: "addComponent T eId v s = Inr s1"
    and b: "s' = putSet T (SparseSet_lock (fst (getComponentSet T (minSetSize s1) s1)))
                   (snd (getComponentSet T (minSetSize s1) s1))"
    by (auto simp: add_def addUnique_def split: sum.splits prod.splits)
  have "tagIndexSound s1" using assms(1) a by (rule addComponent_sound)
  then show ?thesis unfolding b by (intro putSet_sound getComponentSet_sound)
qed

lemma getComponents_sound:
  assumes "tagIndexSound s" and "getComponents T eId s = Inr (w, s')"
  shows "tagIndexSound s'"
proof -
  obtain cSet s1 where g: "getComponentSet T (standardSetSize s) s = (cSet, s1)"
    by (cases "getComponentSet T (standardSetSize s) s")
  have 1: "tagIndexSound s1" using getComponentSet_sound [OF assms(1), of T "standardSetSize s"] g
    by simp
  from assms(2) g obtain s2 where
    a: "(if \<not> SparseSet_bool cSet then ASSERT (\<not> isRequired T) MissingRequiredComponent s1
            else Inr s1) = Inr s2"
    by (auto simp: getComponents_def split: sum.splits)
  have 2: "tagIndexSound s2" using 1 a by (auto split: if_splits dest: ASSERT_sound)
  show ?thesis using assms(2) g a 2
    by (auto simp: getComponents_def putSet_sound split: sum.splits prod.splits)
qed

lemma get_sound: "tagIndexSound s \<Longrightarrow> get T eId s = Inr (w, s') \<Longrightarrow> tagIndexSound s'"
  unfolding get_def by (rule getComponents_sound)

lemma get_singleton_sound:
  assumes "tagIndexSound s" and "get_singleton p T s = Inr (r, s')"
  shows "tagIndexSound s'"
proof -
  obtain cSet s1 where g: "getComponentSet T (standardSetSize s) s = (cSet, s1)"
    by (cases "getComponentSet T (standardSetSize s) s")
  have 1: "tagIndexSound s1" using getComponentSet_sound [OF assms(1), of T "standardSetSize s"] g
    by simp
  from assms(2) g obtain s2 where a: "ASSERT (isUnique T) NotUnique s1 = Inr s2"
    by (auto simp: get_singleton_def split: sum.splits)
  have 2: "tagIndexSound s2" using 1 a by (rule ASSERT_sound)
  show ?thesis using assms(2) g a 2
    by (auto simp: get_singleton_def split: sum.splits prod.splits option.splits
        dest: get_sound)
qed

lemma get_ids_sound:
  assumes "tagIndexSound s" and "get_ids T ids s = Inr (ws, s')"
  shows "tagIndexSound s'"
  using assms getComponentSet_sound [OF assms(1), of T "standardSetSize s"]
  by (auto simp: get_ids_def putSet_sound split: sum.splits prod.splits)

lemma gather_sound:
  "tagIndexSound s \<Longrightarrow> gather Ts eId s = Inr (ws, s') \<Longrightarrow> tagIndexSound s'"
proof (induction Ts arbitrary: s ws)
  case Nil
  then show ?case by simp
next
  case (Cons T Ts)
  from Cons.prems(2) obtain w s1 rest where
    a: "getComponents T eId s = Inr (w, s1)" and b: "gather Ts eId s1 = Inr (rest, s')"
    by (auto split: sum.splits prod.splits)
  have "tagIndexSound s1" using Cons.prems(1) a by (rule getComponents_sound)
  then show ?case using b by (rule Cons.IH)
qed

lemma getEntityIds_sound: "tagIndexSound s \<Longrightarrow> tagIndexSound (snd (getEntityIds T s))"
  using getComponentSet_sound [of s T "minSetSize s"]
  by (auto simp: getEntityIds_def split: prod.splits)

lemma getAll_sound: "tagIndexSound s \<Longrightarrow> tagIndexSound (snd (getAll T s))"
  by (simp add: getAll_def getComponentSet_sound)

lemma gatherAll_sound: "tagIndexSound s \<Longrightarrow> tagIndexSound (snd (gatherAll Ts s))"
proof (induction Ts arbitrary: s)
  case Nil
  then show ?case by simp
next
  case (Cons T Ts)
  have "tagIndexSound (snd (getComponentSet T (minSetSize s) s))"
    using Cons.prems by (rule getComponentSet_sound)
  from Cons.IH [OF this] show ?case by (auto split: prod.splits)
qed

lemma overwrite_sound:
  assumes "tagIndexSound s" and "overwrite p T eId v s = Inr s'"
  shows "tagIndexSound s'"
proof (cases "eId = 0")
  case True
  then show ?thesis using assms by (simp add: overwrite_def)
next
  case False
  obtain cSet s1 where g: "getComponentSet T (standardSetSize s) s = (cSet, s1)"
    by (cases "getComponentSet T (standardSetSize s) s")
  have 1: "tagIndexSound s1" using getComponentSet_sound [OF assms(1), of T "standardSetSize s"] g
    by simp
  show ?thesis
  proof (cases "isUnique T")
    case False
    then show ?thesis using assms(2) g 1 \<open>eId \<noteq> 0\<close>
      by (auto simp: overwrite_def overwriteComponent_def putSet_sound log_sound
          split: option.splits)
  next
    case True
    then have u: "overwriteUnique p T eId cSet v s1 = Inr s'"
      using assms(2) g \<open>eId \<noteq> 0\<close> by (simp add: overwrite_def)
    then obtain r sa sb sc where
      a: "get_singleton p T s1 = Inr (r, sa)"
      and b: "ASSERT (eId = fst r) UniqueOwnershipViolation sa = Inr sb"
      and c: "ASSERT (isUnique T) NotUnique sb = Inr sc"
      and d: "s' = snd (overwriteComponent T eId cSet v sc)"
      by (auto simp: overwriteUnique_def getUnique_def split: sum.splits prod.splits)
    have "tagIndexSound sa" using 1 a by (rule get_singleton_sound)
    then have "tagIndexSound sb" using b by (rule ASSERT_sound)
    then have "tagIndexSound sc" using c by (rule ASSERT_sound)
    then show ?thesis unfolding d
      by (auto simp: overwriteComponent_def log_sound split: option.splits)
  qed
qed

lemma debugCheckRequired_sound:
  "tagIndexSound s \<Longrightarrow> tagIndexSound (fold (\<lambda>T. debugCheckRequired T x) Ts s)"
  by (induction Ts arbitrary: s) (simp_all add: debugCheckRequired_def log_sound)

lemma clearEntityComponent_sound:
  "tagIndexSound s \<Longrightarrow> tagIndexSound (clearEntityComponent Ts eId s)"
  unfolding clearEntityComponent_def
proof (induction Ts arbitrary: s)
  case Nil
  then show ?case by simp
next
  case (Cons T Ts)
  have "tagIndexSound (snd (getComponentSet T (minSetSize s) s))"
    using Cons.prems by (rule getComponentSet_sound)
  then have "tagIndexSound (case getComponentSet T (minSetSize s) s of
                 (cSet, s1) \<Rightarrow> putSet T (snd (SparseSet_erase eId cSet)) s1)"
    by (auto split: prod.splits intro: putSet_sound)
  from Cons.IH [OF this] show ?case by simp
qed

lemma clearByEntity_sound: "tagIndexSound s \<Longrightarrow> tagIndexSound (clearByEntity Ts eId s)"
  by (simp add: clearByEntity_def clearEntityComponent_sound debugCheckRequired_sound)

lemma clearEntity_sound: "tagIndexSound s \<Longrightarrow> tagIndexSound (clearEntity eId s)"
  by (rule tagIndexSound_ext [of s]) (auto simp: clearEntity_def)

lemma registerTransformation_sound:
  "tagIndexSound s \<Longrightarrow> tagIndexSound (registerTransformation T fn s)"
  by (rule tagIndexSound_ext [of s]) (auto simp: registerTransformation_def split: option.splits)

lemma createEntity_sound: "tagIndexSound s \<Longrightarrow> tagIndexSound (snd (createEntity s))"
  by (rule tagIndexSound_ext [of s]) (auto simp: createEntity_def)

lemma call_sound:
  assumes "tagIndexSound s" and "\<not> dropsSets c" and "call c s = Inr s'"
  shows "tagIndexSound s'"
proof (cases c)
  case CreateEntity
  then show ?thesis using assms createEntity_sound by auto
next
  case (Add T eId v)
  then show ?thesis using assms add_sound by auto
next
  case (Overwrite p T eId v)
  then show ?thesis using assms overwrite_sound by auto
next
  case (Get T eId)
  then obtain w where "get T eId s = Inr (w, s')" using assms(3)
    by (cases "get T eId s") auto
  then show ?thesis using assms(1) get_sound by blast
next
  case (GetSingleton p T)
  then obtain r where "get_singleton p T s = Inr (r, s')" using assms(3)
    by (cases "get_singleton p T s") auto
  then show ?thesis using assms(1) get_singleton_sound by blast
next
  case (GetIds T ids)
  then obtain r where "get_ids T ids s = Inr (r, s')" using assms(3)
    by (cases "get_ids T ids s") auto
  then show ?thesis using assms(1) get_ids_sound by blast
next
  case (Gather Ts eId)
  then obtain r where "gather Ts eId s = Inr (r, s')" using assms(3)
    by (cases "gather Ts eId s") auto
  then show ?thesis using assms(1) gather_sound by blast
next
  case (GetEntityIds T)
  then show ?thesis using assms getEntityIds_sound by auto
next
  case (GetAll T)
  then show ?thesis using assms getAll_sound by auto
next
  case (GatherAll Ts)
  then show ?thesis using assms gatherAll_sound by auto
next
  case (Clear Ts)
  then show ?thesis using assms by simp
next
  case (ClearByTag Tag)
  then show ?thesis using assms by simp
next
  case (ClearByEntity Ts eId)
  then show ?thesis using assms clearByEntity_sound by auto
next
  case (ClearEntity eId)
  then show ?thesis using assms clearEntity_sound by auto
next
  case (Prune Ts)
  then show ?thesis using assms by simp
next
  case (RegisterTransformation T fn)
  then show ?thesis using assms registerTransformation_sound by auto
qed

text \<open>
  C8, as the code has it. In every state reached from a freshly constructed manager by a
  sequence of operations none of which is \<^verbatim>\<open>clear\<close>, \<^verbatim>\<open>clearByTag\<close> or \<^verbatim>\<open>prune\<close> (so: by
  \<^verbatim>\<open>createEntity\<close>, \<^verbatim>\<open>add\<close>, \<^verbatim>\<open>overwrite\<close>, the \<^verbatim>\<open>get\<close> overloads, \<^verbatim>\<open>gather\<close>, \<^verbatim>\<open>getEntityIds\<close>,
  \<^verbatim>\<open>getAll\<close>, \<^verbatim>\<open>gatherAll\<close>, \<^verbatim>\<open>clearByEntity\<close>, \<^verbatim>\<open>clearEntity\<close>, \<^verbatim>\<open>registerTransformation\<close>),
  every entry of the tag index lists only component hashes that are keys of the
  component-type index.
\<close>

theorem tag_index_sound_without_drops:
  assumes "calls cs (EntityComponentManager dbg reservedEntities minSize stdSize) = Inr s"
    and "\<forall>c \<in> set cs. \<not> dropsSets c"
  shows "tagIndexSound s"
proof -
  have init: "tagIndexSound (EntityComponentManager dbg reservedEntities minSize stdSize)"
    by (simp add: tagIndexSound_def dangling_def EntityComponentManager_def)
  have "tagIndexSound s0 \<Longrightarrow> calls cs s0 = Inr s \<Longrightarrow> \<forall>c \<in> set cs. \<not> dropsSets c \<Longrightarrow> tagIndexSound s"
    for s0
  proof (induction cs arbitrary: s0)
    case Nil
    then show ?case by simp
  next
    case (Cons c cs)
    from Cons.prems(2) obtain s1 where a: "call c s0 = Inr s1" and b: "calls cs s1 = Inr s"
      by (auto simp: andThen_def split: sum.splits)
    have "tagIndexSound s1" using Cons.prems(1,3) a call_sound by auto
    then show ?case using b Cons.prems(3) Cons.IH by auto
  qed
  then show ?thesis using init assms by blast
qed

theorem tag_index_sound_without_drops_witness:
  "\<not> dropsSets (Add Ev1 1 (10::nat)) \<and> \<not> dropsSets (Get Ev1 2 :: nat operation) \<and>
   calls [Add Ev1 1 10, Get Ev1 2] (EntityComponentManager False 1 100 10024) = Inr scenarioE \<and>
   tagMap scenarioE (tagHashCode Event) = Some {getComponentHash Ev1} \<and>
   tagIndexSound scenarioE"
proof -
  have c: "calls [Add Ev1 1 10, Get Ev1 2] (EntityComponentManager False 1 100 10024) =
           Inr scenarioE"
    by (simp add: scenarioE_def Ev1_def eval_defs get_def getComponents_def
        SparseSet_bool_def getOrCreateComponent_def SparseSet_insert_def Components_EMPTY_def)
  have t: "tagMap scenarioE (tagHashCode Event) = Some {getComponentHash Ev1}"
    by (simp add: scenarioE_def Ev1_def eval_defs get_def getComponents_def
        SparseSet_bool_def getOrCreateComponent_def SparseSet_insert_def Components_EMPTY_def)
  have d: "\<forall>c \<in> set [Add Ev1 1 10, Get Ev1 2]. \<not> dropsSets c" by simp
  from tag_index_sound_without_drops [OF c d] show ?thesis using c t by simp
qed

text \<open>
  C8 as stated fails after \<^verbatim>\<open>clear<T>\<close>: \<^verbatim>\<open>add<Ev1>(1, 10)\<close> creates the Ev1 set and lists its
  hash under the Event tag; \<^verbatim>\<open>clear<Ev1>()\<close> erases the set and leaves the tag entry.
\<close>

theorem tag_index_dangling_after_clear_counterexample:
  "map_sum id (dangling (tagHashCode Event) (getComponentHash Ev1))
     (calls [Add Ev1 1 10, Clear [Ev1]] emptyECM) = Inr True"
  by (simp add: Ev1_def eval_defs clear_def clearComponents_def dangling_def)

text \<open>
  The other two operations that drop sets leave dangling hashes as well: \<^verbatim>\<open>prune\<close> when it
  drops a set, and \<^verbatim>\<open>clearByTag\<close> in the entries of the other tags of a dropped type.
\<close>

lemma tag_index_dangling_after_prune:
  "map_sum id (dangling (tagHashCode Event) (getComponentHash Ev1))
     (calls [Get Ev1 1, Prune [Ev1]] emptyECM) = Inr True"
  by (simp add: Ev1_def eval_defs get_def getComponents_def SparseSet_bool_def
      getOrCreateComponent_def SparseSet_insert_def Components_EMPTY_def prune_def
      prune_hash_def SparseSet_eachWithEmpty_def SparseSet_size_def dangling_def)

lemma tag_index_dangling_after_clearByTag:
  "map_sum id (dangling (tagHashCode NoStack) (getComponentHash CollisionCheckEvent))
     (calls [Add CollisionCheckEvent 1 10, ClearByTag EventTag] emptyECM) = Inr True"
  by (simp add: CollisionCheckEvent_def EventTag_def eval_defs clearByTag_def
      clearComponentsByTag_def dangling_def)

end
